theory Spec2Isabelle
  imports Complex_Main "HOL-Library.Word"
begin

section \<open>The terrain generator of multiple\_lights.cpp\<close>

text \<open>
  The terrain core of the program is the pair of functions \<open>sampleHeight\<close> and
  \<open>generateTerrain\<close>. Both compute on C++ \<open>float\<close> values and call three
  functions that are not part of the program text: \<open>stb_perlin_noise3\<close> (stb\_perlin.h),
  \<open>pow\<close> (the C library) and \<open>glm::normalize\<close> (GLM). The embedding keeps the scalar type
  abstract: a value of \<open>'f fpu\<close> carries the float operations the two functions use, and
  every use of an operation in the source is one application of the matching field.
  Integer variables are C++ \<open>int\<close> (32 bits, two's complement); index values are
  \<open>unsigned int\<close> (32 bits).
\<close>

subsection \<open>Scalars\<close>

type_synonym 'f vec3 = "'f \<times> 'f \<times> 'f"

record 'f fpu =
  flit :: "rat \<Rightarrow> 'f"  \<comment> \<open>a float literal such as \<open>0.5f\<close>\<close>
  fint :: "int \<Rightarrow> 'f"  \<comment> \<open>the conversion \<open>(float)i\<close> of an \<open>int\<close>\<close>
  fadd :: "'f \<Rightarrow> 'f \<Rightarrow> 'f"
  fsub :: "'f \<Rightarrow> 'f \<Rightarrow> 'f"
  fmul :: "'f \<Rightarrow> 'f \<Rightarrow> 'f"
  fdiv :: "'f \<Rightarrow> 'f \<Rightarrow> 'f"
  fpow :: "'f \<Rightarrow> 'f \<Rightarrow> 'f"  \<comment> \<open>\<open>pow(base, exponent)\<close>\<close>
  stb_perlin_noise3 :: "'f \<Rightarrow> 'f \<Rightarrow> 'f \<Rightarrow> int \<Rightarrow> int \<Rightarrow> int \<Rightarrow> 'f"
  glm_normalize :: "'f vec3 \<Rightarrow> 'f vec3"

subsection \<open>Machine integers\<close>

text \<open>
  Arithmetic on \<open>int\<close> whose exact result does not fit 32 bits is undefined behaviour in
  C++; the model reports it as an error value instead of a mesh.
\<close>

datatype error = SignedOverflow

definition int_ok :: "int \<Rightarrow> bool" where
  "int_ok i \<longleftrightarrow> - 2147483648 \<le> i \<and> i \<le> 2147483647"

definition c_div :: "int \<Rightarrow> int \<Rightarrow> int" where
  \<comment> \<open>C++ \<open>/\<close> on \<open>int\<close>: the quotient is truncated towards zero\<close>
  "c_div a b = sgn a * sgn b * (\<bar>a\<bar> div \<bar>b\<bar>)"

subsection \<open>Counted loops\<close>

text \<open>\<open>for (int i = i0; i < n; ++i) body\<close>, with \<open>s\<close> the variables the body updates.\<close>

function for_loop :: "int \<Rightarrow> int \<Rightarrow> (int \<Rightarrow> 's \<Rightarrow> 's) \<Rightarrow> 's \<Rightarrow> 's" where
  "for_loop i n body s = (if i < n then for_loop (i + 1) n body (body i s) else s)"
  by pat_completeness auto
termination
  by (relation "measure (\<lambda>(i, n, body, s). nat (n - i))") auto

declare for_loop.simps [simp del]

subsection \<open>sampleHeight\<close>

text \<open>
  Lines 305 to 308, the body of the octave loop. The loop updates the three variables
  \<open>(height, amp, f)\<close>.
\<close>

definition octave_body :: "'f fpu \<Rightarrow> 'f \<Rightarrow> 'f \<Rightarrow> 'f \<Rightarrow> 'f \<Rightarrow> int \<Rightarrow> 'f vec3 \<Rightarrow> 'f vec3" where
  "octave_body P x z persistence lacunarity =
     (\<lambda>i (height, amp, f).
        let n = stb_perlin_noise3 P (fmul P x f) (flit P 0) (fmul P z f) 0 0 0;
            height = fadd P height (fmul P n amp);
            amp = fmul P amp persistence;
            f = fmul P f lacunarity
        in (height, amp, f))"

definition sampleHeight :: "'f fpu \<Rightarrow> 'f \<Rightarrow> 'f \<Rightarrow> 'f \<Rightarrow> 'f \<Rightarrow> 'f \<Rightarrow> 'f \<Rightarrow> 'f" where
  "sampleHeight P x0 z0 offsetX offsetZ amplitude freq =
    (let x = fadd P x0 offsetX;
         z = fadd P z0 offsetZ;
         octaves = 6;
         persistence = flit P (1 / 2);
         lacunarity = flit P 2;
         (height, amp, f) =
           for_loop 0 octaves (octave_body P x z persistence lacunarity)
             (flit P 0, flit P 1, freq);
         height = fdiv P (fadd P height (flit P 1)) (flit P 2);
         height = fpow P height (flit P (3 / 2))
     in fmul P height amplitude)"

subsection \<open>The octave sum as the specification words it\<close>

primrec octave_amp :: "'f fpu \<Rightarrow> nat \<Rightarrow> 'f" where
  "octave_amp P 0 = flit P 1"
| "octave_amp P (Suc i) = fmul P (octave_amp P i) (flit P (1 / 2))"

primrec octave_freq :: "'f fpu \<Rightarrow> 'f \<Rightarrow> nat \<Rightarrow> 'f" where
  "octave_freq P freq 0 = freq"
| "octave_freq P freq (Suc i) = fmul P (octave_freq P freq i) (flit P 2)"

definition octave_term :: "'f fpu \<Rightarrow> 'f \<Rightarrow> 'f \<Rightarrow> 'f \<Rightarrow> nat \<Rightarrow> 'f" where
  "octave_term P x z freq i =
     fmul P (stb_perlin_noise3 P (fmul P x (octave_freq P freq i)) (flit P 0)
               (fmul P z (octave_freq P freq i)) 0 0 0)
            (octave_amp P i)"

primrec octave_sum :: "'f fpu \<Rightarrow> 'f \<Rightarrow> 'f \<Rightarrow> 'f \<Rightarrow> nat \<Rightarrow> 'f" where
  "octave_sum P x z freq 0 = flit P 0"
| "octave_sum P x z freq (Suc k) =
     fadd P (octave_sum P x z freq k) (octave_term P x z freq k)"

subsection \<open>generateTerrain\<close>

text \<open>
  The two output vectors, passed by reference in the source and returned updated here.
  \<open>vertices\<close> is the flat float stream (8 floats per vertex), \<open>indices\<close> the
  \<open>unsigned int\<close> stream.
\<close>

record 'f buffers =
  vertices :: "'f list"
  indices :: "32 word list"

text \<open>
  Lines 219 to 229: \<open>std::vector<float> heights(N * N)\<close> is zero-filled, then every
  entry is assigned in row-major order.
\<close>

definition generateTerrain_heights ::
  "'f fpu \<Rightarrow> int \<Rightarrow> 'f \<Rightarrow> 'f \<Rightarrow> 'f \<Rightarrow> 'f \<Rightarrow> 'f \<Rightarrow> 'f list" where
  "generateTerrain_heights P N scale offsetX offsetZ amplitude freq =
     for_loop 0 N (\<lambda>z.
       for_loop 0 N (\<lambda>x heights.
         let wx = fint P x;
             wz = fint P z;
             h = sampleHeight P (fmul P wx scale) (fmul P wz scale) offsetX offsetZ amplitude freq
         in heights[nat (z * N + x) := h]))
       (replicate (nat (N * N)) (flit P 0))"

text \<open>Lines 236 to 264: the eight floats pushed for the lattice point \<open>(x, z)\<close>.\<close>

definition generateTerrain_vertex :: "'f fpu \<Rightarrow> 'f list \<Rightarrow> int \<Rightarrow> 'f \<Rightarrow> int \<Rightarrow> int \<Rightarrow> 'f list" where
  "generateTerrain_vertex P heights N scale z x =
     (let px = fmul P (fint P (x - c_div N 2)) scale;
          pz = fmul P (fint P (z - c_div N 2)) scale;
          py = heights ! nat (z * N + x);
          hl = (if x > 0 then heights ! nat (z * N + (x - 1)) else heights ! nat (z * N + x));
          hr = (if x < N - 1 then heights ! nat (z * N + (x + 1)) else heights ! nat (z * N + x));
          hd = (if z > 0 then heights ! nat ((z - 1) * N + x) else heights ! nat (z * N + x));
          hu = (if z < N - 1 then heights ! nat ((z + 1) * N + x) else heights ! nat (z * N + x));
          normal = glm_normalize P (fsub P hl hr, fmul P (flit P 2) scale, fsub P hd hu);
          u = fdiv P (fint P x) (fint P (N - 1));
          v = fdiv P (fint P z) (fint P (N - 1))
      in [px, py, pz, fst normal, fst (snd normal), snd (snd normal), u, v])"

text \<open>Lines 273 to 285: the six indices pushed for the cell \<open>(x, z)\<close>.\<close>

definition generateTerrain_cell :: "int \<Rightarrow> int \<Rightarrow> int \<Rightarrow> 32 word list" where
  "generateTerrain_cell N z x =
     (let i0 = word_of_int (z * N + x);
          i1 = word_of_int (z * N + (x + 1));
          i2 = word_of_int ((z + 1) * N + x);
          i3 = word_of_int ((z + 1) * N + (x + 1))
      in [i0, i2, i1, i1, i2, i3])"

text \<open>
  The whole function. The two \<open>reserve\<close> arguments are the first \<open>int\<close> expressions
  evaluated; once they are in range so is every later one, because the loop variables stay
  in \<open>[0, N]\<close> and every lattice index is below \<open>N * N\<close> (lemma
  \<open>loop_arithmetic_in_range\<close> below). Running out of memory is not modelled.
\<close>

definition generateTerrain ::
  "'f fpu \<Rightarrow> 'f buffers \<Rightarrow> int \<Rightarrow> 'f \<Rightarrow> 'f \<Rightarrow> 'f \<Rightarrow> 'f \<Rightarrow> 'f \<Rightarrow> error + 'f buffers" where
  "generateTerrain P bufs N scale offsetX offsetZ amplitude freq =
     (let bufs = bufs\<lparr>vertices := []\<rparr>;
          bufs = bufs\<lparr>indices := []\<rparr>
      in if \<not> (int_ok (N * N) \<and> int_ok (N * N * 8)) then Inl SignedOverflow
         else if \<not> (int_ok (N - 1) \<and> int_ok ((N - 1) * (N - 1)) \<and> int_ok ((N - 1) * (N - 1) * 6))
         then Inl SignedOverflow
         else
           let heights = generateTerrain_heights P N scale offsetX offsetZ amplitude freq;
               bufs = bufs\<lparr>vertices :=
                 for_loop 0 N (\<lambda>z.
                   for_loop 0 N (\<lambda>x vs. vs @ generateTerrain_vertex P heights N scale z x))
                   (vertices bufs)\<rparr>;
               bufs = bufs\<lparr>indices :=
                 for_loop 0 (N - 1) (\<lambda>z.
                   for_loop 0 (N - 1) (\<lambda>x is. is @ generateTerrain_cell N z x))
                   (indices bufs)\<rparr>
           in Inr bufs)"

subsection \<open>The mesh as the specification words it\<close>

text \<open>The elevation grid entry of the lattice point \<open>(x, z)\<close>.\<close>

definition grid_height :: "'f fpu \<Rightarrow> 'f \<Rightarrow> 'f \<Rightarrow> 'f \<Rightarrow> 'f \<Rightarrow> 'f \<Rightarrow> int \<Rightarrow> int \<Rightarrow> 'f" where
  "grid_height P scale offsetX offsetZ amplitude freq z x =
     sampleHeight P (fmul P (fint P x) scale) (fmul P (fint P z) scale)
       offsetX offsetZ amplitude freq"

text \<open>The two triangles \<open>(i0, i2, i1)\<close> and \<open>(i1, i2, i3)\<close> of the cell \<open>(x, z)\<close>.\<close>

definition cell_triangles :: "int \<Rightarrow> int \<Rightarrow> int \<Rightarrow> int list" where
  "cell_triangles N z x =
     (let i0 = z * N + x;
          i1 = z * N + x + 1;
          i2 = (z + 1) * N + x;
          i3 = (z + 1) * N + x + 1
      in [i0, i2, i1] @ [i1, i2, i3])"

subsection \<open>Exact arithmetic\<close>

text \<open>
  One arithmetic to run the functions in: a scalar is \<open>Some r\<close> for the real number
  \<open>r\<close>, or \<open>None\<close> for a value that is not a finite number (a NaN or an infinity).
  Every operation is exact on finite arguments, so rounding, overflow and underflow of
  \<open>float\<close> are left out. An operation on a non-finite argument is taken to be non-finite
  again; the theorems below that compute in this arithmetic give it finite arguments only.
  It is the arithmetic of the concrete runs for the claims on sizes, indices and layout;
  the claim on the magnitude of the normals is stated in binary32, which follows.
\<close>

definition ideal_op :: "(real \<Rightarrow> real \<Rightarrow> real) \<Rightarrow> real option \<Rightarrow> real option \<Rightarrow> real option" where
  "ideal_op f a b =
     (case a of None \<Rightarrow> None | Some x \<Rightarrow> (case b of None \<Rightarrow> None | Some y \<Rightarrow> Some (f x y)))"

definition ideal_div :: "real option \<Rightarrow> real option \<Rightarrow> real option" where
  "ideal_div a b =
     (case a of None \<Rightarrow> None | Some x \<Rightarrow>
       (case b of None \<Rightarrow> None | Some y \<Rightarrow> if y = 0 then None else Some (x / y)))"

definition ideal_sqrt :: "real option \<Rightarrow> real option" where
  "ideal_sqrt a = (case a of None \<Rightarrow> None | Some x \<Rightarrow> if x < 0 then None else Some (sqrt x))"

text \<open>
  Modelled from the spec: \<open>pow\<close> is the C library's, not under src/. The spec's shaping
  curve \<open>normalized^1.5\<close> is the real power; C gives a NaN for a negative base with an
  exponent that is not an integer, and an infinity for base 0 with a negative exponent.
\<close>

definition ideal_pow :: "real option \<Rightarrow> real option \<Rightarrow> real option" where
  "ideal_pow a b =
     (case a of None \<Rightarrow> None | Some x \<Rightarrow>
       (case b of None \<Rightarrow> None | Some y \<Rightarrow>
          if 0 < x then Some (x powr y)
          else if x = 0 then (if 0 < y then Some 0 else if y = 0 then Some 1 else None)
          else if y \<in> \<int> then Some (x powi \<lfloor>y\<rfloor>)
          else None))"

text \<open>
  Modelled from the spec: \<open>stb_perlin_noise3\<close> is in stb\_perlin.h, not under src/. The
  spec's noise source \<open>sample3D(x, y, z)\<close> is any function of the three coordinates, taken
  as the parameter \<open>noise\<close>; the three wrap arguments are always 0 in the program.
\<close>

definition ideal_noise ::
  "(real \<Rightarrow> real \<Rightarrow> real \<Rightarrow> real) \<Rightarrow> real option \<Rightarrow> real option \<Rightarrow> real option \<Rightarrow> int \<Rightarrow> int \<Rightarrow> int
   \<Rightarrow> real option" where
  "ideal_noise noise a b c x_wrap y_wrap z_wrap =
     (case a of None \<Rightarrow> None | Some x \<Rightarrow>
       (case b of None \<Rightarrow> None | Some y \<Rightarrow>
         (case c of None \<Rightarrow> None | Some z \<Rightarrow> Some (noise x y z))))"

text \<open>
  Modelled from the spec: \<open>glm::normalize\<close> is GLM's, not under src/. The spec's
  \<open>normalize\<close> scales a vector to unit length; GLM computes
  \<open>v * inversesqrt(dot(v, v))\<close> with \<open>inversesqrt(d) = 1 / sqrt(d)\<close>, which is not a
  finite number for the zero vector.
\<close>

definition ideal_normalize :: "real option vec3 \<Rightarrow> real option vec3" where
  "ideal_normalize v =
     (case v of (a, b, c) \<Rightarrow>
        let d = ideal_op (+) (ideal_op (+) (ideal_op (*) a a) (ideal_op (*) b b)) (ideal_op (*) c c);
            r = ideal_div (Some 1) (ideal_sqrt d)
        in (ideal_op (*) a r, ideal_op (*) b r, ideal_op (*) c r))"

definition ideal_fpu :: "(real \<Rightarrow> real \<Rightarrow> real \<Rightarrow> real) \<Rightarrow> real option fpu" where
  "ideal_fpu noise =
     \<lparr>flit = (\<lambda>q. Some (of_rat q)),
      fint = (\<lambda>i. Some (of_int i)),
      fadd = ideal_op (+),
      fsub = ideal_op (-),
      fmul = ideal_op (*),
      fdiv = ideal_div,
      fpow = ideal_pow,
      stb_perlin_noise3 = ideal_noise noise,
      glm_normalize = ideal_normalize\<rparr>"

text \<open>A noise source that returns the same value everywhere.\<close>

definition const_noise :: "real \<Rightarrow> real \<Rightarrow> real \<Rightarrow> real \<Rightarrow> real" where
  "const_noise c x y z = c"

text \<open>The fixtures of the concrete runs below.\<close>

definition flat_fpu :: "real option fpu" where
  "flat_fpu = ideal_fpu (const_noise 0)"

definition empty_buffers :: "real option buffers" where
  "empty_buffers = \<lparr>vertices = [], indices = []\<rparr>"

subsection \<open>Binary32 arithmetic\<close>

text \<open>
  The \<open>float\<close> of the program as IEEE 754 binary32: 24 significant bits, exponents
  from \<open>-126\<close> to \<open>127\<close>, subnormal numbers below \<open>2^-126\<close>, and every operation
  rounded once to the nearest number, ties to even (no fused multiply-add, no wider
  intermediate format). A value is a finite real \<open>Fin v\<close>, where \<open>Fin 0\<close> is the positive
  zero, or the negative zero, or an infinity with its sign bit, or a NaN.
\<close>

datatype b32 = Fin real | NZero | Inf bool | NaN

definition b32_finite :: "b32 \<Rightarrow> bool" where
  "b32_finite a = (case a of Fin v \<Rightarrow> True | NZero \<Rightarrow> True | Inf s \<Rightarrow> False | NaN \<Rightarrow> False)"

text \<open>The real number a finite value stands for.\<close>

definition b32_val :: "b32 \<Rightarrow> real" where
  "b32_val a = (case a of Fin v \<Rightarrow> v | NZero \<Rightarrow> 0 | Inf s \<Rightarrow> 0 | NaN \<Rightarrow> 0)"

text \<open>The sign bit.\<close>

definition b32_neg :: "b32 \<Rightarrow> bool" where
  "b32_neg a = (case a of Fin v \<Rightarrow> v < 0 | NZero \<Rightarrow> True | Inf s \<Rightarrow> s | NaN \<Rightarrow> False)"

definition b32_is_inf :: "b32 \<Rightarrow> bool" where
  "b32_is_inf a = (case a of Fin v \<Rightarrow> False | NZero \<Rightarrow> False | Inf s \<Rightarrow> True | NaN \<Rightarrow> False)"

definition b32_is_zero :: "b32 \<Rightarrow> bool" where
  "b32_is_zero a = (a = Fin 0 \<or> a = NZero)"

text \<open>
  Rounding a magnitude \<open>m > 0\<close>: the binary32 numbers around \<open>m\<close> are the multiples of
  \<open>2 ^ ulp_exp m\<close>, and \<open>m\<close> goes to the nearest one, to the even multiple on a tie.
\<close>

definition ulp_exp :: "real \<Rightarrow> int" where
  "ulp_exp m = max (\<lfloor>log 2 m\<rfloor> - 23) (- 149)"

definition rne :: "real \<Rightarrow> int" where
  "rne q = (let f = \<lfloor>q\<rfloor>
            in if q - of_int f < 1 / 2 then f
               else if 1 / 2 < q - of_int f then f + 1
               else if even f then f else f + 1)"

definition round_mag :: "real \<Rightarrow> real" where
  "round_mag m = (if m = 0 then 0 else of_int (rne (m / 2 powi ulp_exp m)) * 2 powi ulp_exp m)"

text \<open>
  The binary32 result for the exact result of sign \<open>s\<close> and magnitude \<open>m\<close>: an infinity
  when the rounded magnitude reaches \<open>2^128\<close>, a zero of the same sign when it is 0.
\<close>

definition b32_round :: "bool \<Rightarrow> real \<Rightarrow> b32" where
  "b32_round s m =
     (let r = round_mag m
      in if 2 ^ 128 \<le> r then Inf s
         else if r = 0 then (if s then NZero else Fin 0)
         else Fin (if s then - r else r))"

definition b32_mul :: "b32 \<Rightarrow> b32 \<Rightarrow> b32" where
  "b32_mul a b =
     (if a = NaN \<or> b = NaN then NaN
      else if b32_is_inf a \<or> b32_is_inf b
      then (if b32_is_zero a \<or> b32_is_zero b then NaN else Inf (b32_neg a \<noteq> b32_neg b))
      else b32_round (b32_neg a \<noteq> b32_neg b) (\<bar>b32_val a\<bar> * \<bar>b32_val b\<bar>))"

text \<open>An exact sum 0 is the positive zero, unless both summands are negative zeros.\<close>

definition b32_add :: "b32 \<Rightarrow> b32 \<Rightarrow> b32" where
  "b32_add a b =
     (if a = NaN \<or> b = NaN then NaN
      else if b32_is_inf a then (if b32_is_inf b \<and> b32_neg a \<noteq> b32_neg b then NaN else a)
      else if b32_is_inf b then b
      else let r = b32_val a + b32_val b
           in if r = 0 then (if b32_neg a \<and> b32_neg b then NZero else Fin 0)
              else b32_round (r < 0) \<bar>r\<bar>)"

definition b32_minus :: "b32 \<Rightarrow> b32" where
  "b32_minus a =
     (case a of Fin v \<Rightarrow> if v = 0 then NZero else Fin (- v) | NZero \<Rightarrow> Fin 0
      | Inf s \<Rightarrow> Inf (\<not> s) | NaN \<Rightarrow> NaN)"

definition b32_sub :: "b32 \<Rightarrow> b32 \<Rightarrow> b32" where
  "b32_sub a b = b32_add a (b32_minus b)"

definition b32_div :: "b32 \<Rightarrow> b32 \<Rightarrow> b32" where
  "b32_div a b =
     (if a = NaN \<or> b = NaN then NaN
      else if b32_is_inf a then (if b32_is_inf b then NaN else Inf (b32_neg a \<noteq> b32_neg b))
      else if b32_is_inf b then (if b32_neg a \<noteq> b32_neg b then NZero else Fin 0)
      else if b32_is_zero b
      then (if b32_is_zero a then NaN else Inf (b32_neg a \<noteq> b32_neg b))
      else b32_round (b32_neg a \<noteq> b32_neg b) (\<bar>b32_val a\<bar> / \<bar>b32_val b\<bar>))"

definition b32_sqrt :: "b32 \<Rightarrow> b32" where
  "b32_sqrt a =
     (case a of Fin v \<Rightarrow> if v < 0 then NaN else b32_round False (sqrt v) | NZero \<Rightarrow> NZero
      | Inf s \<Rightarrow> if s then NaN else Inf False | NaN \<Rightarrow> NaN)"

text \<open>A literal, and the conversion \<open>(float) i\<close> of an \<open>int\<close>.\<close>

definition b32_lit :: "rat \<Rightarrow> b32" where
  "b32_lit q = b32_round (q < 0) \<bar>of_rat q\<bar>"

definition b32_int :: "int \<Rightarrow> b32" where
  "b32_int i = b32_round (i < 0) \<bar>of_int i\<bar>"

text \<open>
  Modelled from the spec: \<open>glm::normalize\<close> is GLM's, not under src/. The spec's
  \<open>normalize\<close> scales a vector to unit length; GLM computes
  \<open>v * inversesqrt(dot(v, v))\<close> with \<open>dot(v, v) = v.x * v.x + v.y * v.y + v.z * v.z\<close>
  summed from the left and \<open>inversesqrt(d) = 1 / sqrt(d)\<close>, each operation in
  \<open>float\<close>.
\<close>

definition b32_normalize :: "b32 vec3 \<Rightarrow> b32 vec3" where
  "b32_normalize v =
     (case v of (x, y, z) \<Rightarrow>
        let d = b32_add (b32_add (b32_mul x x) (b32_mul y y)) (b32_mul z z);
            t = b32_div (b32_lit 1) (b32_sqrt d)
        in (b32_mul x t, b32_mul y t, b32_mul z t))"

text \<open>
  The arithmetic of the program in binary32. \<open>pow\<close> and \<open>stb_perlin_noise3\<close> are
  library code and stay parameters.
\<close>

definition b32_fpu ::
  "(b32 \<Rightarrow> b32 \<Rightarrow> b32) \<Rightarrow> (b32 \<Rightarrow> b32 \<Rightarrow> b32 \<Rightarrow> int \<Rightarrow> int \<Rightarrow> int \<Rightarrow> b32) \<Rightarrow> b32 fpu" where
  "b32_fpu pw ns =
     \<lparr>flit = b32_lit, fint = b32_int, fadd = b32_add, fsub = b32_sub, fmul = b32_mul,
      fdiv = b32_div, fpow = pw, stb_perlin_noise3 = ns, glm_normalize = b32_normalize\<rparr>"

text \<open>
  The instance for the concrete runs of the vertex loop, which calls neither \<open>pow\<close> nor
  \<open>stb_perlin_noise3\<close>: both are left without a value here.
\<close>

definition b32_core :: "b32 fpu" where
  "b32_core = b32_fpu (\<lambda>a b. NaN) (\<lambda>x y z x_wrap y_wrap z_wrap. NaN)"

text \<open>
  The error of one rounding that does not overflow, \<open>r\<close> the binary32 result for the
  exact result \<open>v\<close>: half a unit in the last place, which is at most \<open>\<bar>v\<bar> / 2^24\<close> for
  a normal number and \<open>2^-150\<close> for a subnormal one.
\<close>

definition b32_near :: "real \<Rightarrow> real \<Rightarrow> bool" where
  "b32_near r v = (\<bar>r - v\<bar> \<le> \<bar>v\<bar> / 2 ^ 24 + 1 / 2 ^ 150)"

text \<open>
  Lines 241 to 244: the heights left, right, down and up of the lattice point \<open>(x, z)\<close>,
  its own height where the grid ends.
\<close>

definition neighbour_heights :: "'f list \<Rightarrow> int \<Rightarrow> int \<Rightarrow> int \<Rightarrow> 'f \<times> 'f \<times> 'f \<times> 'f" where
  "neighbour_heights heights N z x =
     (if x > 0 then heights ! nat (z * N + (x - 1)) else heights ! nat (z * N + x),
      if x < N - 1 then heights ! nat (z * N + (x + 1)) else heights ! nat (z * N + x),
      if z > 0 then heights ! nat ((z - 1) * N + x) else heights ! nat (z * N + x),
      if z < N - 1 then heights ! nat ((z + 1) * N + x) else heights ! nat (z * N + x))"

section \<open>Properties\<close>

subsection \<open>Loops\<close>

lemma for_loop_done: "n \<le> i \<Longrightarrow> for_loop i n body s = s"
  by (simp add: for_loop.simps)

lemma for_loop_step: "i < n \<Longrightarrow> for_loop i n body s = for_loop (i + 1) n body (body i s)"
  by (simp add: for_loop.simps)

lemma for_loop_fold: "for_loop i n body s = fold body [i..n - 1] s"
proof (induction i n body s rule: for_loop.induct)
  case (1 i n body s)
  show ?case
  proof (cases "i < n")
    case True
    then have "[i..n - 1] = i # [i + 1..n - 1]"
      by (simp add: upto_rec1)
    with True 1 show ?thesis
      by (simp add: for_loop_step)
  next
    case False
    then show ?thesis
      by (simp add: for_loop_done)
  qed
qed

lemma for_loop_fold_fun: "for_loop i n body = fold body [i..n - 1]"
  by (rule ext) (rule for_loop_fold)

lemma for_loop_last:
  "i \<le> n \<Longrightarrow> for_loop i (n + 1) body s = body n (for_loop i n body s)"
proof -
  assume "i \<le> n"
  then have "[i..n + 1 - 1] = [i..n - 1] @ [n]"
    using upto_rec2 [of i n] by simp
  then show ?thesis
    by (simp add: for_loop_fold)
qed

subsection \<open>Lists built block by block, lists assigned entry by entry\<close>

lemma fold_nested_product:
  "fold (\<lambda>z. fold (h z) xs) zs s = fold (\<lambda>(z, x). h z x) (List.product zs xs) s"
  by (induction zs arbitrary: s) (simp_all add: fold_map comp_def)

lemma fold_append_concat: "fold (\<lambda>x acc. acc @ g x) xs acc = acc @ concat (map g xs)"
  by (induction xs arbitrary: acc) simp_all

lemma length_concat_blocks:
  "(\<And>x. x \<in> set xs \<Longrightarrow> length (g x) = L) \<Longrightarrow> length (concat (map g xs)) = L * length xs"
  by (induction xs) simp_all

lemma drop_concat_blocks:
  "(\<And>x. x \<in> set xs \<Longrightarrow> length (g x) = L) \<Longrightarrow>
   drop (L * k) (concat (map g xs)) = concat (map g (drop k xs))"
proof (induction xs arbitrary: k)
  case Nil
  show ?case by simp
next
  case (Cons x xs)
  show ?case
  proof (cases k)
    case 0
    then show ?thesis by simp
  next
    case (Suc j)
    have "length (g x) = L"
      using Cons.prems by simp
    moreover have "drop (L * j) (concat (map g xs)) = concat (map g (drop j xs))"
      using Cons.IH Cons.prems by simp
    ultimately show ?thesis
      using Suc by simp
  qed
qed

lemma block_concat:
  assumes "\<And>x. x \<in> set xs \<Longrightarrow> length (g x) = L" and "k < length xs"
  shows "take L (drop (L * k) (concat (map g xs))) = g (xs ! k)"
proof -
  have "drop k xs = xs ! k # drop (Suc k) xs"
    using assms(2) by (simp add: Cons_nth_drop_Suc)
  moreover have "length (g (xs ! k)) = L"
    using assms by simp
  ultimately show ?thesis
    using drop_concat_blocks [of xs g L k] assms(1) by simp
qed

lemma length_fold_update: "length (fold (\<lambda>i hs. hs[f i := g i]) is hs) = length hs"
  by (induction "is" arbitrary: hs) simp_all

lemma nth_fold_update_other:
  "j \<notin> f ` set is \<Longrightarrow> fold (\<lambda>i hs. hs[f i := g i]) is hs ! j = hs ! j"
  by (induction "is" arbitrary: hs) auto

lemma nth_fold_update:
  "distinct (map f is) \<Longrightarrow> i \<in> set is \<Longrightarrow> f i < length hs \<Longrightarrow>
   fold (\<lambda>i hs. hs[f i := g i]) is hs ! f i = g i"
proof (induction "is" arbitrary: hs)
  case Nil
  then show ?case by simp
next
  case (Cons a as)
  show ?case
  proof (cases "i = a")
    case True
    then have "f i \<notin> f ` set as"
      using Cons.prems(1) by auto
    then show ?thesis
      using True Cons.prems(3) by (simp add: nth_fold_update_other)
  next
    case False
    then show ?thesis
      using Cons by simp
  qed
qed

lemma lattice_nth:
  assumes "0 \<le> z" "z < N" "0 \<le> x" "x < N"
  shows "List.product [0..N - 1] [0..N - 1] ! nat (z * N + x) = (z, x)"
proof -
  have N: "0 < N" using assms by simp
  have eq: "nat (z * N + x) = nat z * nat N + nat x"
    using assms by (simp add: nat_add_distrib nat_mult_distrib)
  have lt: "nat x < nat N" using assms by simp
  have "nat z * nat N + nat x < nat N * nat N"
  proof -
    have "nat z * nat N + nat x < nat z * nat N + nat N" using lt by simp
    also have "\<dots> = (nat z + 1) * nat N" by simp
    also have "\<dots> \<le> nat N * nat N" using assms by (intro mult_le_mono1) simp
    finally show ?thesis .
  qed
  then have "List.product [0..N - 1] [0..N - 1] ! nat (z * N + x) =
    ([0..N - 1] ! ((nat z * nat N + nat x) div nat N),
     [0..N - 1] ! ((nat z * nat N + nat x) mod nat N))"
    using N by (simp add: eq product_nth)
  then show ?thesis
    using assms lt by simp
qed

subsection \<open>The octave loop\<close>

lemma octave_loop_state:
  "for_loop 0 (int k) (octave_body P x z (flit P (1 / 2)) (flit P 2)) (flit P 0, flit P 1, freq) =
     (octave_sum P x z freq k, octave_amp P k, octave_freq P freq k)"
proof (induction k)
  case 0
  show ?case by (simp add: for_loop_done)
next
  case (Suc k)
  let ?body = "octave_body P x z (flit P (1 / 2)) (flit P 2)"
  have "for_loop 0 (int (Suc k)) ?body (flit P 0, flit P 1, freq) =
        ?body (int k) (for_loop 0 (int k) ?body (flit P 0, flit P 1, freq))"
    using for_loop_last [of 0 "int k"] by (simp add: add.commute)
  also have "\<dots> = ?body (int k) (octave_sum P x z freq k, octave_amp P k, octave_freq P freq k)"
    by (simp only: Suc)
  finally show ?case
    by (simp add: octave_body_def octave_term_def)
qed

lemma sampleHeight_closed_form:
  "sampleHeight P x z offsetX offsetZ amplitude freq =
     fmul P
       (fpow P
          (fdiv P (fadd P (octave_sum P (fadd P x offsetX) (fadd P z offsetZ) freq 6) (flit P 1))
             (flit P 2))
          (flit P (3 / 2)))
       amplitude"
proof -
  have "for_loop 0 6 (octave_body P (fadd P x offsetX) (fadd P z offsetZ) (flit P (1 / 2)) (flit P 2))
          (flit P 0, flit P 1, freq) =
        (octave_sum P (fadd P x offsetX) (fadd P z offsetZ) freq 6, octave_amp P 6,
         octave_freq P freq 6)"
    using octave_loop_state [of 6 P "fadd P x offsetX" "fadd P z offsetZ" freq] by simp
  then show ?thesis
    by (simp add: sampleHeight_def)
qed

subsection \<open>The lattice and the heights grid\<close>

lemma lattice_index_less:
  assumes "0 \<le> z" "z < N" "0 \<le> x" "x < N"
  shows "nat (z * N + x) < nat N * nat N"
proof -
  have eq: "nat (z * N + x) = nat z * nat N + nat x"
    using assms by (simp add: nat_add_distrib nat_mult_distrib)
  have "nat z * nat N + nat x < nat z * nat N + nat N" using assms by simp
  also have "\<dots> = (nat z + 1) * nat N" by simp
  also have "\<dots> \<le> nat N * nat N" using assms by (intro mult_le_mono1) simp
  finally show ?thesis using eq by simp
qed

lemma lattice_index_div_mod:
  "0 \<le> x \<Longrightarrow> x < N \<Longrightarrow> (z * N + x) div N = z \<and> (z * N + x) mod N = (x::int)"
  by simp

lemma lattice_index_inj:
  assumes "0 \<le> x" "x < N" "0 \<le> x'" "x' < N" "z * N + x = z' * N + (x'::int)"
  shows "z = z' \<and> x = x'"
proof -
  have a: "(z * N + x) div N = z \<and> (z * N + x) mod N = x"
    using assms(1,2) by (rule lattice_index_div_mod)
  have b: "(z' * N + x') div N = z' \<and> (z' * N + x') mod N = x'"
    using assms(3,4) by (rule lattice_index_div_mod)
  show ?thesis
    using a b unfolding assms(5) by simp
qed

lemma lattice_distinct:
  "distinct (map (\<lambda>(z, x). nat (z * N + x)) (List.product [0..N - 1] [0..N - 1]))"
proof -
  have "inj_on (\<lambda>(z, x). nat (z * N + x)) (set (List.product [0..N - 1] [0..N - 1]))"
  proof (rule inj_onI)
    fix p q :: "int \<times> int"
    assume p: "p \<in> set (List.product [0..N - 1] [0..N - 1])"
      and q: "q \<in> set (List.product [0..N - 1] [0..N - 1])"
      and e: "(case p of (z, x) \<Rightarrow> nat (z * N + x)) = (case q of (z, x) \<Rightarrow> nat (z * N + x))"
    obtain z x where pz: "p = (z, x)" by (cases p)
    obtain z' x' where qz: "q = (z', x')" by (cases q)
    have a: "0 \<le> z" "0 \<le> x" "x < N" "0 \<le> z'" "0 \<le> x'" "x' < N"
      using p q pz qz by simp_all
    have "0 \<le> z * N + x" "0 \<le> z' * N + x'"
      using a by simp_all
    moreover have "nat (z * N + x) = nat (z' * N + x')"
      using e pz qz by simp
    ultimately have "z * N + x = z' * N + x'"
      by simp
    then have "z = z' \<and> x = x'"
      using a by (intro lattice_index_inj [of x N x' z z']) simp_all
    then show "p = q"
      using pz qz by simp
  qed
  then show ?thesis
    by (simp add: distinct_map distinct_product)
qed

lemma heights_fold:
  "generateTerrain_heights P N scale offsetX offsetZ amplitude freq =
     fold (\<lambda>p hs. hs[(case p of (z, x) \<Rightarrow> nat (z * N + x)) :=
                      (case p of (z, x) \<Rightarrow> grid_height P scale offsetX offsetZ amplitude freq z x)])
       (List.product [0..N - 1] [0..N - 1]) (replicate (nat (N * N)) (flit P 0))"
  by (simp add: generateTerrain_heights_def for_loop_fold_fun fold_nested_product grid_height_def
      case_prod_unfold cong: fold_cong)

lemma length_heights:
  "length (generateTerrain_heights P N scale offsetX offsetZ amplitude freq) = nat (N * N)"
  by (simp only: heights_fold length_fold_update length_replicate)

lemma nth_heights:
  assumes "0 \<le> z" "z < N" "0 \<le> x" "x < N"
  shows "generateTerrain_heights P N scale offsetX offsetZ amplitude freq ! nat (z * N + x) =
         grid_height P scale offsetX offsetZ amplitude freq z x"
proof -
  let ?f = "\<lambda>p. case p of (z, x) \<Rightarrow> nat (z * N + x)"
  let ?g = "\<lambda>p. case p of (z, x) \<Rightarrow> grid_height P scale offsetX offsetZ amplitude freq z x"
  have d: "distinct (map ?f (List.product [0..N - 1] [0..N - 1]))"
    using lattice_distinct [of N] by (simp add: case_prod_unfold)
  have m: "(z, x) \<in> set (List.product [0..N - 1] [0..N - 1])"
    using assms by simp
  have "nat (z * N + x) < nat N * nat N"
    using assms by (rule lattice_index_less)
  then have l: "?f (z, x) < length (replicate (nat (N * N)) (flit P 0))"
    using assms by (simp add: nat_mult_distrib)
  have "fold (\<lambda>p hs. hs[?f p := ?g p]) (List.product [0..N - 1] [0..N - 1])
          (replicate (nat (N * N)) (flit P 0)) ! ?f (z, x) = ?g (z, x)"
    using d m l by (rule nth_fold_update)
  then show ?thesis
    by (simp add: heights_fold)
qed

subsection \<open>The shape of the result\<close>

lemma square_bound:
  assumes "- 16383 \<le> N" "N \<le> (16383::int)"
  shows "0 \<le> N * N" "N * N \<le> 268402689"
proof -
  show "0 \<le> N * N" by simp
  have "\<bar>N\<bar> * \<bar>N\<bar> \<le> 16383 * 16383"
    using assms by (intro mult_mono) simp_all
  then show "N * N \<le> 268402689"
    by (simp add: abs_mult_self_eq)
qed

lemma square_bound_pred:
  assumes "- 16383 \<le> N" "N \<le> (16383::int)"
  shows "0 \<le> (N - 1) * (N - 1)" "(N - 1) * (N - 1) \<le> 268435456"
proof -
  show "0 \<le> (N - 1) * (N - 1)" by simp
  have "\<bar>N - 1\<bar> * \<bar>N - 1\<bar> \<le> 16384 * 16384"
    using assms by (intro mult_mono) simp_all
  then show "(N - 1) * (N - 1) \<le> 268435456"
    by (simp add: abs_mult_self_eq)
qed

lemma reserve_in_range:
  assumes "- 16383 \<le> N" "N \<le> 16383"
  shows "int_ok (N * N) \<and> int_ok (N * N * 8) \<and> int_ok (N - 1) \<and>
         int_ok ((N - 1) * (N - 1)) \<and> int_ok ((N - 1) * (N - 1) * 6)"
proof -
  have "0 \<le> N * N" "0 \<le> (N - 1) * (N - 1)"
    by simp_all
  moreover have "N * N \<le> 268402689" "(N - 1) * (N - 1) \<le> 268435456"
    using square_bound [OF assms] square_bound_pred [OF assms] by simp_all
  ultimately show ?thesis
    unfolding int_ok_def using assms by linarith
qed

lemma reserve_overflow:
  assumes "N < - 16383 \<or> 16383 < N"
  shows "\<not> int_ok (N * N * 8)"
proof -
  have "16384 \<le> \<bar>N\<bar>" using assms by auto
  then have "16384 * 16384 \<le> \<bar>N\<bar> * \<bar>N\<bar>"
    by (intro mult_mono) simp_all
  then have "268435456 \<le> N * N"
    by (simp add: abs_mult_self_eq)
  then show ?thesis
    by (simp add: int_ok_def)
qed

lemma generateTerrain_overflow:
  "N < - 16383 \<or> 16383 < N \<Longrightarrow>
   generateTerrain P bufs N scale offsetX offsetZ amplitude freq = Inl SignedOverflow"
  using reserve_overflow [of N] by (simp add: generateTerrain_def)

lemma generateTerrain_mesh:
  assumes "- 16383 \<le> N" "N \<le> 16383"
  shows "generateTerrain P bufs N scale offsetX offsetZ amplitude freq =
    Inr \<lparr>vertices = concat (map (\<lambda>(z, x).
            generateTerrain_vertex P
              (generateTerrain_heights P N scale offsetX offsetZ amplitude freq) N scale z x)
            (List.product [0..N - 1] [0..N - 1])),
         indices = concat (map (\<lambda>(z, x). generateTerrain_cell N z x)
            (List.product [0..N - 2] [0..N - 2]))\<rparr>"
  using reserve_in_range [OF assms]
  by (simp add: generateTerrain_def for_loop_fold_fun fold_nested_product fold_append_concat
      case_prod_unfold)

lemma nth_concat_blocks:
  assumes "\<And>x. x \<in> set xs \<Longrightarrow> length (g x) = L" and "k < length xs" and "j < L"
  shows "concat (map g xs) ! (L * k + j) = g (xs ! k) ! j"
proof -
  have len: "length (concat (map g xs)) = L * length xs"
    using assms(1) by (rule length_concat_blocks)
  have "L * k + L \<le> L * length xs"
  proof -
    have "L * k + L = L * Suc k" by simp
    also have "\<dots> \<le> L * length xs" using assms(2) by (intro mult_le_mono2) simp
    finally show ?thesis .
  qed
  then have "L * k + j < length (concat (map g xs))"
    using len assms(3) by simp
  then have "concat (map g xs) ! (L * k + j) = take L (drop (L * k) (concat (map g xs))) ! j"
    using assms(3) by simp
  then show ?thesis
    using block_concat [of xs g L k] assms by simp
qed

lemma uint_index:
  "0 \<le> k \<Longrightarrow> k < 4294967296 \<Longrightarrow> uint (word_of_int k :: 32 word) = k"
  by (simp add: uint_word_of_int)

lemma cell_bounds:
  assumes "0 \<le> z" "z \<le> N - 2" "0 \<le> x" "x \<le> N - (2::int)"
  shows "0 \<le> z * N + x" "(z + 1) * N + (x + 1) < N * N"
proof -
  have N: "2 \<le> N" using assms by simp
  show "0 \<le> z * N + x" using assms N by simp
  have "(z + 1) * N \<le> (N - 1) * N"
    using assms N by (intro mult_right_mono) simp_all
  then have "(z + 1) * N + (x + 1) \<le> (N - 1) * N + (N - 1)"
    using assms by linarith
  also have "\<dots> < N * N" by (simp add: algebra_simps)
  finally show "(z + 1) * N + (x + 1) < N * N" .
qed

lemma cell_range:
  assumes "0 \<le> z" "z \<le> N - 2" "0 \<le> x" "x \<le> N - 2"
  shows "\<forall>i \<in> set (cell_triangles N z x). 0 \<le> i \<and> i < N * N"
proof -
  have N: "2 \<le> N" using assms by simp
  have lo: "0 \<le> z * N + x" and hi: "(z + 1) * N + (x + 1) < N * N"
    using cell_bounds [OF assms] by simp_all
  have "z * N \<le> (z + 1) * N"
    using N by (simp add: algebra_simps)
  then show ?thesis
    using lo hi by (simp add: cell_triangles_def Let_def algebra_simps)
qed

lemma uint_cell:
  assumes "0 \<le> z" "z \<le> N - 2" "0 \<le> x" "x \<le> N - 2" "N \<le> 16383"
  shows "map uint (generateTerrain_cell N z x) = cell_triangles N z x"
proof -
  have N: "2 \<le> N" using assms by simp
  have lo: "0 \<le> z * N + x" and hi: "(z + 1) * N + (x + 1) < N * N"
    using cell_bounds [OF assms(1-4)] by simp_all
  have "N * N \<le> 268402689"
    using assms by (intro square_bound) simp_all
  then have top: "(z + 1) * N + (x + 1) < 4294967296"
    using hi by simp
  have step: "z * N \<le> (z + 1) * N"
    using N by (simp add: algebra_simps)
  have i0: "uint (word_of_int (z * N + x) :: 32 word) = z * N + x"
    using lo top step by (intro uint_index) simp_all
  have i1: "uint (word_of_int (z * N + (x + 1)) :: 32 word) = z * N + (x + 1)"
    using lo top step by (intro uint_index) simp_all
  have i2: "uint (word_of_int ((z + 1) * N + x) :: 32 word) = (z + 1) * N + x"
    using lo top step by (intro uint_index) simp_all
  have i3: "uint (word_of_int ((z + 1) * N + (x + 1)) :: 32 word) = (z + 1) * N + (x + 1)"
    using lo top step by (intro uint_index) simp_all
  have "map uint (generateTerrain_cell N z x) =
    [z * N + x, (z + 1) * N + x, z * N + (x + 1), z * N + (x + 1), (z + 1) * N + x,
     (z + 1) * N + (x + 1)]"
    by (simp only: generateTerrain_cell_def Let_def list.map i0 i1 i2 i3)
  also have "\<dots> = cell_triangles N z x"
    by (simp add: cell_triangles_def Let_def)
  finally show ?thesis .
qed

lemma length_cell [simp]: "length (generateTerrain_cell N z x) = 6"
  by (simp add: generateTerrain_cell_def Let_def)

lemma length_vertex [simp]: "length (generateTerrain_vertex P heights N scale z x) = 8"
  by (simp add: generateTerrain_vertex_def Let_def)

lemma cell_distinct:
  assumes "0 \<le> z" "z \<le> N - 2" "0 \<le> x" "x \<le> N - 2"
  shows "distinct (take 3 (cell_triangles N z x)) \<and> distinct (drop 3 (cell_triangles N z x))"
proof -
  have N: "2 \<le> N" using assms by simp
  show ?thesis
    using N by (simp add: cell_triangles_def Let_def algebra_simps)
qed

lemma concat_map_product:
  "concat (map (\<lambda>(z, x). g z x) (List.product zs xs)) =
   concat (map (\<lambda>z. concat (map (g z) xs)) zs)"
  by (induction zs) (simp_all add: comp_def)

lemma indices_length:
  "1 \<le> N \<Longrightarrow> length (concat (map (\<lambda>(z, x). generateTerrain_cell N z x) (List.product [0..N - 2] [0..N - 2])))
   = 6 * nat ((N - 1) * (N - 1))"
proof -
  assume N: "1 \<le> N"
  have "length (concat (map (\<lambda>(z, x). generateTerrain_cell N z x)
          (List.product [0..N - 2] [0..N - 2]))) =
        6 * length (List.product [0..N - 2] [0..N - 2])"
    by (rule length_concat_blocks) (simp add: case_prod_unfold)
  then show ?thesis
    using N by (simp add: nat_mult_distrib)
qed

lemma vertices_length:
  "0 \<le> N \<Longrightarrow> length (concat (map (\<lambda>(z, x). generateTerrain_vertex P hs N scale z x)
     (List.product [0..N - 1] [0..N - 1]))) = 8 * nat (N * N)"
proof -
  assume N: "0 \<le> N"
  have "length (concat (map (\<lambda>(z, x). generateTerrain_vertex P hs N scale z x)
          (List.product [0..N - 1] [0..N - 1]))) =
        8 * length (List.product [0..N - 1] [0..N - 1])"
    by (rule length_concat_blocks) (simp add: case_prod_unfold)
  then show ?thesis
    using N by (simp add: nat_mult_distrib)
qed

lemma uint_indices:
  assumes "N \<le> 16383"
  shows "map uint (concat (map (\<lambda>(z, x). generateTerrain_cell N z x)
           (List.product [0..N - 2] [0..N - 2]))) =
         concat (map (\<lambda>(z, x). cell_triangles N z x) (List.product [0..N - 2] [0..N - 2]))"
proof -
  let ?L = "List.product [0..N - 2] [0..N - 2]"
  have e: "map (\<lambda>p. map uint (case p of (z, x) \<Rightarrow> generateTerrain_cell N z x)) ?L =
        map (\<lambda>p. case p of (z, x) \<Rightarrow> cell_triangles N z x) ?L"
    using assms by (intro map_cong [OF refl]) (auto simp: uint_cell)
  have "map uint (concat (map (\<lambda>(z, x). generateTerrain_cell N z x) ?L)) =
        concat (map (\<lambda>p. map uint (case p of (z, x) \<Rightarrow> generateTerrain_cell N z x)) ?L)"
    by (simp add: map_concat comp_def)
  also have "\<dots> = concat (map (\<lambda>p. case p of (z, x) \<Rightarrow> cell_triangles N z x) ?L)"
    by (simp only: e)
  finally show ?thesis .
qed

lemma uint_indices_range:
  assumes "i \<in> set (concat (map (\<lambda>(z, x). cell_triangles N z x)
             (List.product [0..N - 2] [0..N - 2])))"
  shows "0 \<le> i \<and> i < N * N"
proof -
  from assms obtain z x where zx: "0 \<le> z" "z \<le> N - 2" "0 \<le> x" "x \<le> N - 2"
    and i: "i \<in> set (cell_triangles N z x)"
    by auto
  show ?thesis
    using cell_range [OF zx] i by blast
qed

lemma cell_words_distinct:
  assumes "0 \<le> z" "z \<le> N - 2" "0 \<le> x" "x \<le> N - 2" "N \<le> 16383"
  shows "distinct (take 3 (generateTerrain_cell N z x)) \<and>
         distinct (drop 3 (generateTerrain_cell N z x))"
proof -
  have u: "map uint (generateTerrain_cell N z x) = cell_triangles N z x"
    using assms by (rule uint_cell)
  have "distinct (map uint (take 3 (generateTerrain_cell N z x)))"
    using cell_distinct [OF assms(1-4)] by (simp only: take_map [symmetric] u)
  moreover have "distinct (map uint (drop 3 (generateTerrain_cell N z x)))"
    using cell_distinct [OF assms(1-4)] by (simp only: drop_map [symmetric] u)
  ultimately show ?thesis
    by (simp only: distinct_map)
qed

lemma triangle_distinct:
  fixes N :: int
  defines "idx \<equiv> concat (map (\<lambda>(z, x). generateTerrain_cell N z x)
                     (List.product [0..N - 2] [0..N - 2]))"
  assumes N: "N \<le> 16383" and t: "3 * t + 2 < length idx"
  shows "distinct [idx ! (3 * t), idx ! (3 * t + 1), idx ! (3 * t + 2)]"
proof -
  let ?L = "List.product [0..N - 2] [0..N - 2]"
  let ?g = "\<lambda>p. case p of (z, x) \<Rightarrow> generateTerrain_cell N z x"
  have len6: "\<And>p. p \<in> set ?L \<Longrightarrow> length (?g p) = 6"
    by (simp add: case_prod_unfold)
  have "length idx = 6 * length ?L"
    unfolding idx_def by (rule length_concat_blocks) (simp add: case_prod_unfold)
  then have c: "t div 2 < length ?L"
    using t by simp
  obtain z x where zx: "?L ! (t div 2) = (z, x)"
    by (cases "?L ! (t div 2)")
  have "(z, x) \<in> set ?L"
    using c zx nth_mem [of "t div 2" ?L] by simp
  then have r: "0 \<le> z" "z \<le> N - 2" "0 \<le> x" "x \<le> N - 2"
    by simp_all
  have nth: "\<And>j. j < 6 \<Longrightarrow> idx ! (6 * (t div 2) + j) = generateTerrain_cell N z x ! j"
    unfolding idx_def using nth_concat_blocks [of ?L ?g 6 "t div 2"] c zx
    by (simp add: case_prod_unfold)
  have d: "distinct (take 3 (generateTerrain_cell N z x)) \<and>
           distinct (drop 3 (generateTerrain_cell N z x))"
    using r N by (rule cell_words_distinct)
  obtain a b c' d' e f where cell: "generateTerrain_cell N z x = [a, b, c', d', e, f]"
    by (simp add: generateTerrain_cell_def Let_def)
  show ?thesis
  proof (cases "even t")
    case True
    then obtain k where k: "t = 2 * k"
      by (auto elim: evenE)
    have e: "3 * t = 6 * k"
      using k by simp
    have "idx ! (6 * k) = a" "idx ! (6 * k + 1) = b" "idx ! (6 * k + 2) = c'"
      using nth [of 0] nth [of 1] nth [of 2] cell k by simp_all
    then show ?thesis
      unfolding e using d cell by simp
  next
    case False
    then obtain k where k: "t = 2 * k + 1"
      by (auto elim: oddE)
    have e: "3 * t = 6 * k + 3"
      using k by simp
    have "idx ! (6 * k + 3) = d'" "idx ! (6 * k + 3 + 1) = e" "idx ! (6 * k + 3 + 2) = f"
      using nth [of 3] nth [of 4] nth [of 5] cell k by (simp_all add: add.commute)
    then show ?thesis
      unfolding e using d cell by simp
  qed
qed

lemma buffers_cleared:
  "(bufs :: 'f buffers)\<lparr>vertices := [], indices := []\<rparr> = \<lparr>vertices = [], indices = []\<rparr>"
  by (cases bufs) simp

lemma generateTerrain_buffers:
  "generateTerrain P bufs N scale offsetX offsetZ amplitude freq =
   generateTerrain P bufs' N scale offsetX offsetZ amplitude freq"
  by (simp add: generateTerrain_def buffers_cleared)

lemma row_major_cells:
  "concat (map (\<lambda>(z, x). cell_triangles N z x) (List.product [0..N - 2] [0..N - 2])) =
   concat (map (\<lambda>z. concat (map (\<lambda>x. cell_triangles N z x) [0..N - 2])) [0..N - 2])"
  by (rule concat_map_product)

subsection \<open>Running in exact arithmetic\<close>

lemma ideal_fields [simp]:
  "flit (ideal_fpu noise) q = Some (of_rat q)"
  "fint (ideal_fpu noise) i = Some (of_int i)"
  "fadd (ideal_fpu noise) = ideal_op (+)"
  "fsub (ideal_fpu noise) = ideal_op (-)"
  "fmul (ideal_fpu noise) = ideal_op (*)"
  "fdiv (ideal_fpu noise) = ideal_div"
  "fpow (ideal_fpu noise) = ideal_pow"
  "stb_perlin_noise3 (ideal_fpu noise) = ideal_noise noise"
  "glm_normalize (ideal_fpu noise) = ideal_normalize"
  by (simp_all add: ideal_fpu_def)

lemma ideal_op_simps [simp]:
  "ideal_op f (Some x) (Some y) = Some (f x y)"
  "ideal_op f None b = None"
  "ideal_op f a None = None"
  by (simp_all add: ideal_op_def split: option.splits)

lemma ideal_div_simps [simp]:
  "y \<noteq> 0 \<Longrightarrow> ideal_div (Some x) (Some y) = Some (x / y)"
  "ideal_div (Some x) (Some 0) = None"
  "ideal_div None b = None"
  "ideal_div a None = None"
  by (simp_all add: ideal_div_def split: option.splits)

lemma ideal_noise_simps [simp]:
  "ideal_noise noise (Some x) (Some y) (Some z) a b c = Some (noise x y z)"
  by (simp add: ideal_noise_def)

lemma three_halves_not_int: "(3 / 2 :: real) \<notin> \<int>"
proof
  assume "(3 / 2 :: real) \<in> \<int>"
  then obtain k :: int where "(3 / 2 :: real) = of_int k"
    by (auto simp: Ints_def)
  then have "(3 :: real) = of_int (2 * k)"
    by simp
  then have "(3 :: int) = 2 * k"
    using of_int_eq_iff [of 3 "2 * k", where ?'a = real] by simp
  then show False
    by presburger
qed

lemma of_rat_literals [simp]:
  "(of_rat (1 / 2) :: real) = 1 / 2" "(of_rat (3 / 2) :: real) = 3 / 2"
  by (simp_all add: of_rat_divide)

lemma ideal_pow_shaping:
  "ideal_pow (Some h) (Some (3 / 2)) = (if h < 0 then None else Some (h powr (3 / 2)))"
  by (simp add: ideal_pow_def three_halves_not_int)

lemma ideal_octave_amp: "octave_amp (ideal_fpu noise) k = Some ((1 / 2) ^ k)"
  by (induction k) simp_all

lemma ideal_octave_freq: "octave_freq (ideal_fpu noise) (Some f) k = Some (f * 2 ^ k)"
  by (induction k) simp_all

lemma ideal_octave_sum:
  "octave_sum (ideal_fpu noise) (Some x) (Some z) (Some f) k =
     Some (\<Sum>i<k. noise (x * (f * 2 ^ i)) 0 (z * (f * 2 ^ i)) * (1 / 2) ^ i)"
  by (induction k) (simp_all add: octave_term_def ideal_octave_amp ideal_octave_freq)

lemma ideal_sampleHeight:
  "sampleHeight (ideal_fpu noise) (Some x) (Some z) (Some ox) (Some oz) (Some a) (Some f) =
     (let s = (\<Sum>i<6. noise ((x + ox) * (f * 2 ^ i)) 0 ((z + oz) * (f * 2 ^ i)) * (1 / 2) ^ i)
      in if s < - 1 then None else Some (((s + 1) / 2) powr (3 / 2) * a))"
  by (simp add: sampleHeight_closed_form ideal_octave_sum ideal_pow_shaping Let_def)

lemma geometric_six: "(\<Sum>i<6. c * (1 / 2) ^ i) = c * (63 / 32 :: real)"
  by (simp add: lessThan_nat_numeral lessThan_Suc power_divide algebra_simps)

lemma const_sampleHeight:
  "sampleHeight (ideal_fpu (const_noise c)) (Some x) (Some z) (Some ox) (Some oz) (Some a) (Some f) =
     (if c * (63 / 32) < - 1 then None else Some (((c * (63 / 32) + 1) / 2) powr (3 / 2) * a))"
  unfolding ideal_sampleHeight const_noise_def geometric_six by (simp add: Let_def)

lemma degenerate_mesh: "generateTerrain flat_fpu empty_buffers 1 (Some 1) (Some 0) (Some 0) (Some 1) (Some 1) =
  Inr \<lparr>vertices = [Some 0, Some ((1 / 2) powr (3 / 2)), Some 0, Some 0, Some 1, Some 0, None, None],
       indices = []\<rparr>"
  apply (simp add: generateTerrain_mesh generateTerrain_vertex_def c_div_def)
  apply (simp add: nth_heights [of 0 1 0, simplified] grid_height_def flat_fpu_def const_sampleHeight)
  apply (simp add: ideal_normalize_def ideal_sqrt_def)
  done

lemma c_div_half: "0 \<le> N \<Longrightarrow> c_div N 2 = N div 2"
  by (simp add: c_div_def sgn_if)

lemma vertex_block:
  assumes "- 16383 \<le> N" "N \<le> 16383" "0 \<le> z" "z < N" "0 \<le> x" "x < N"
  shows "\<exists>m. generateTerrain P bufs N scale offsetX offsetZ amplitude freq = Inr m \<and>
           take 8 (drop (8 * nat (z * N + x)) (vertices m)) =
             generateTerrain_vertex P
               (generateTerrain_heights P N scale offsetX offsetZ amplitude freq) N scale z x"
proof -
  let ?hs = "generateTerrain_heights P N scale offsetX offsetZ amplitude freq"
  let ?L = "List.product [0..N - 1] [0..N - 1]"
  let ?g = "\<lambda>p. case p of (z, x) \<Rightarrow> generateTerrain_vertex P ?hs N scale z x"
  have k: "nat (z * N + x) < length ?L"
    using lattice_index_less [OF assms(3-6)] by simp
  have "take 8 (drop (8 * nat (z * N + x)) (concat (map ?g ?L))) = ?g (?L ! nat (z * N + x))"
    using k by (intro block_concat) (simp_all add: case_prod_unfold)
  then have "take 8 (drop (8 * nat (z * N + x)) (concat (map ?g ?L))) =
      generateTerrain_vertex P ?hs N scale z x"
    by (simp add: lattice_nth [OF assms(3-6)])
  then show ?thesis
    by (simp add: generateTerrain_mesh [OF assms(1,2)])
qed

lemma vertex_grid:
  assumes "0 \<le> z" "z < N" "0 \<le> x" "x < N"
  shows "generateTerrain_vertex P
           (generateTerrain_heights P N scale offsetX offsetZ amplitude freq) N scale z x =
         (let H = grid_height P scale offsetX offsetZ amplitude freq;
              hLeft = (if x > 0 then H z (x - 1) else H z x);
              hRight = (if x < N - 1 then H z (x + 1) else H z x);
              hDown = (if z > 0 then H (z - 1) x else H z x);
              hUp = (if z < N - 1 then H (z + 1) x else H z x);
              normal = glm_normalize P (fsub P hLeft hRight, fmul P (flit P 2) scale, fsub P hDown hUp)
          in [fmul P (fint P (x - N div 2)) scale, H z x, fmul P (fint P (z - N div 2)) scale,
              fst normal, fst (snd normal), snd (snd normal),
              fdiv P (fint P x) (fint P (N - 1)), fdiv P (fint P z) (fint P (N - 1))])"
proof -
  let ?hs = "generateTerrain_heights P N scale offsetX offsetZ amplitude freq"
  let ?H = "grid_height P scale offsetX offsetZ amplitude freq"
  have N: "0 \<le> N" using assms by simp
  have c: "?hs ! nat (z * N + x) = ?H z x"
    using assms by (rule nth_heights)
  have l: "x > 0 \<Longrightarrow> ?hs ! nat (z * N + (x - 1)) = ?H z (x - 1)"
    using assms by (intro nth_heights) simp_all
  have r: "x < N - 1 \<Longrightarrow> ?hs ! nat (z * N + (x + 1)) = ?H z (x + 1)"
    using assms by (intro nth_heights) simp_all
  have d: "z > 0 \<Longrightarrow> ?hs ! nat ((z - 1) * N + x) = ?H (z - 1) x"
    using assms by (intro nth_heights) simp_all
  have u: "z < N - 1 \<Longrightarrow> ?hs ! nat ((z + 1) * N + x) = ?H (z + 1) x"
    using assms by (intro nth_heights) simp_all
  show ?thesis
    unfolding generateTerrain_vertex_def Let_def c_div_half [OF N]
    using c l r d u by (simp cong: if_cong)
qed

subsection \<open>The entries of the heights grid\<close>

lemma heights_mem:
  assumes "0 \<le> z" "z < N" "0 \<le> x" "x < N"
  shows "grid_height P scale offsetX offsetZ amplitude freq z x \<in>
         set (generateTerrain_heights P N scale offsetX offsetZ amplitude freq)"
proof -
  have "nat (z * N + x) < nat N * nat N"
    using assms by (rule lattice_index_less)
  moreover have "nat N * nat N = nat (N * N)"
    using assms by (simp add: nat_mult_distrib)
  ultimately have "nat (z * N + x) <
      length (generateTerrain_heights P N scale offsetX offsetZ amplitude freq)"
    by (simp add: length_heights)
  then have "generateTerrain_heights P N scale offsetX offsetZ amplitude freq ! nat (z * N + x) \<in>
      set (generateTerrain_heights P N scale offsetX offsetZ amplitude freq)"
    by (rule nth_mem)
  then show ?thesis
    by (simp only: nth_heights [OF assms])
qed

lemma heights_set:
  assumes "h \<in> set (generateTerrain_heights P N scale offsetX offsetZ amplitude freq)"
    and N: "0 < N"
  shows "\<exists>z x. 0 \<le> z \<and> z < N \<and> 0 \<le> x \<and> x < N \<and>
           h = grid_height P scale offsetX offsetZ amplitude freq z x"
proof -
  let ?hs = "generateTerrain_heights P N scale offsetX offsetZ amplitude freq"
  from assms(1) obtain k where k: "k < length ?hs" and h: "h = ?hs ! k"
    by (auto simp: in_set_conv_nth)
  have kN: "k < nat (N * N)"
    using k by (simp add: length_heights)
  let ?z = "int (k div nat N)" and ?x = "int (k mod nat N)"
  have "k < nat N * nat N"
    using kN N by (simp add: nat_mult_distrib)
  then have "k div nat N < nat N"
    by (rule less_mult_imp_div_less)
  then have z: "0 \<le> ?z" "?z < N"
    by simp_all
  have "k mod nat N < nat N"
    using N by simp
  then have x: "0 \<le> ?x" "?x < N"
    by simp_all
  have "N = int (nat N)"
    using N by simp
  then have "?z * N + ?x = int (k div nat N) * int (nat N) + int (k mod nat N)"
    by simp
  also have "\<dots> = int (k div nat N * nat N + k mod nat N)"
    by (simp only: of_nat_add of_nat_mult)
  also have "\<dots> = int k"
    by simp
  finally have "nat (?z * N + ?x) = k"
    by simp
  then have "h = grid_height P scale offsetX offsetZ amplitude freq ?z ?x"
    using nth_heights [OF z x, of P scale offsetX offsetZ amplitude freq] h by simp
  then show ?thesis
    using z x by blast
qed

lemma normal_block:
  assumes "- 16383 \<le> N" "N \<le> 16383" "0 \<le> z" "z < N" "0 \<le> x" "x < N"
  shows "\<exists>m. generateTerrain P bufs N scale offsetX offsetZ amplitude freq = Inr m \<and>
           take 3 (drop (8 * nat (z * N + x) + 3) (vertices m)) =
             (let H = grid_height P scale offsetX offsetZ amplitude freq;
                  hLeft = (if x > 0 then H z (x - 1) else H z x);
                  hRight = (if x < N - 1 then H z (x + 1) else H z x);
                  hDown = (if z > 0 then H (z - 1) x else H z x);
                  hUp = (if z < N - 1 then H (z + 1) x else H z x);
                  normal = glm_normalize P
                    (fsub P hLeft hRight, fmul P (flit P 2) scale, fsub P hDown hUp)
              in [fst normal, fst (snd normal), snd (snd normal)])"
proof -
  obtain m where m: "generateTerrain P bufs N scale offsetX offsetZ amplitude freq = Inr m"
    and b: "take 8 (drop (8 * nat (z * N + x)) (vertices m)) =
             generateTerrain_vertex P
               (generateTerrain_heights P N scale offsetX offsetZ amplitude freq) N scale z x"
    using vertex_block [OF assms, of P bufs scale offsetX offsetZ amplitude freq] by blast
  have "take 3 (drop (8 * nat (z * N + x) + 3) (vertices m)) =
        take 3 (drop 3 (take 8 (drop (8 * nat (z * N + x)) (vertices m))))"
    by (simp add: drop_take add.commute)
  then show ?thesis
    using m by (simp add: b vertex_grid [OF assms(3-6)] Let_def)
qed

subsection \<open>The loops stay in range\<close>

text \<open>
  For every \<open>N\<close> that passes the two \<open>reserve\<close> lines, every \<open>int\<close> expression of the
  three loops is in range and every read of \<open>heights\<close> is inside the vector, so the plain
  integer arithmetic and the list reads of the model are those of the program.
\<close>

lemma heights_index_in_range:
  assumes "0 \<le> z" "z < N" "0 \<le> x" "x < N"
  shows "nat (z * N + x) < length (generateTerrain_heights P N scale offsetX offsetZ amplitude freq)"
proof -
  have "nat (z * N + x) < nat N * nat N"
    using assms by (rule lattice_index_less)
  moreover have "nat N * nat N = nat (N * N)"
    using assms by (simp add: nat_mult_distrib)
  ultimately show ?thesis
    by (simp add: length_heights)
qed

lemma lattice_index_bounds:
  assumes "0 \<le> z" "z < N" "0 \<le> x" "x < (N::int)"
  shows "0 \<le> z * N + x" "z * N + x < N * N"
proof -
  show "0 \<le> z * N + x"
    using assms by simp
  have "z * N \<le> (N - 1) * N"
    using assms by (intro mult_right_mono) simp_all
  then have "z * N + x \<le> (N - 1) * N + (N - 1)"
    using assms by linarith
  also have "\<dots> < N * N"
    by (simp add: algebra_simps)
  finally show "z * N + x < N * N" .
qed

lemma loop_arithmetic_in_range:
  assumes "- 16383 \<le> N" "N \<le> 16383" "0 \<le> z" "z < N" "0 \<le> x" "x < N"
  shows "int_ok (z + 1)" "int_ok (x + 1)" "int_ok (z * N)" "int_ok (z * N + x)"
    "int_ok (c_div N 2)" "int_ok (x - c_div N 2)" "int_ok (z - c_div N 2)"
    "x > 0 \<Longrightarrow> int_ok (x - 1) \<and> int_ok (z * N + (x - 1))"
    "x < N - 1 \<Longrightarrow> int_ok (z * N + (x + 1))"
    "z > 0 \<Longrightarrow> int_ok (z - 1) \<and> int_ok ((z - 1) * N) \<and> int_ok ((z - 1) * N + x)"
    "z < N - 1 \<Longrightarrow> int_ok ((z + 1) * N) \<and> int_ok ((z + 1) * N + x) \<and>
       int_ok ((z + 1) * N + (x + 1))"
proof -
  have sq: "N * N \<le> 268402689"
    using assms(1,2) by (rule square_bound)
  have lat: "\<And>z' x'. 0 \<le> z' \<Longrightarrow> z' < N \<Longrightarrow> 0 \<le> x' \<Longrightarrow> x' < N \<Longrightarrow>
      0 \<le> z' * N \<and> z' * N \<le> z' * N + x' \<and> z' * N + x' < 268402689"
  proof -
    fix z' x' :: int
    assume a: "0 \<le> z'" "z' < N" "0 \<le> x'" "x' < N"
    have "0 \<le> z' * N"
      using a by simp
    moreover have "z' * N + x' < N * N"
      using a by (rule lattice_index_bounds)
    ultimately show "0 \<le> z' * N \<and> z' * N \<le> z' * N + x' \<and> z' * N + x' < 268402689"
      using a sq by linarith
  qed
  have h: "c_div N 2 = N div 2"
    using assms by (intro c_div_half) simp
  show "int_ok (z + 1)" "int_ok (x + 1)"
    using assms by (simp_all add: int_ok_def)
  show "int_ok (z * N)" "int_ok (z * N + x)"
    using lat [OF assms(3-6)] unfolding int_ok_def by linarith+
  show "int_ok (c_div N 2)" "int_ok (x - c_div N 2)" "int_ok (z - c_div N 2)"
    unfolding h int_ok_def using assms by presburger+
  show "x > 0 \<Longrightarrow> int_ok (x - 1) \<and> int_ok (z * N + (x - 1))"
  proof -
    assume x: "x > 0"
    have "0 \<le> z * N \<and> z * N \<le> z * N + (x - 1) \<and> z * N + (x - 1) < 268402689"
      using x assms by (intro lat) simp_all
    then show ?thesis
      unfolding int_ok_def using assms by linarith
  qed
  show "x < N - 1 \<Longrightarrow> int_ok (z * N + (x + 1))"
  proof -
    assume x: "x < N - 1"
    have "0 \<le> z * N \<and> z * N \<le> z * N + (x + 1) \<and> z * N + (x + 1) < 268402689"
      using x assms by (intro lat) simp_all
    then show ?thesis
      unfolding int_ok_def by linarith
  qed
  show "z > 0 \<Longrightarrow> int_ok (z - 1) \<and> int_ok ((z - 1) * N) \<and> int_ok ((z - 1) * N + x)"
  proof -
    assume z: "z > 0"
    have "0 \<le> (z - 1) * N \<and> (z - 1) * N \<le> (z - 1) * N + x \<and> (z - 1) * N + x < 268402689"
      using z assms by (intro lat) simp_all
    then show ?thesis
      unfolding int_ok_def using assms by linarith
  qed
  show "z < N - 1 \<Longrightarrow> int_ok ((z + 1) * N) \<and> int_ok ((z + 1) * N + x) \<and>
       int_ok ((z + 1) * N + (x + 1))"
  proof -
    assume z: "z < N - 1"
    have "0 \<le> (z + 1) * N \<and> (z + 1) * N \<le> (z + 1) * N + x \<and> (z + 1) * N + x < 268402689"
      using z assms by (intro lat) simp_all
    then show ?thesis
      unfolding int_ok_def by linarith
  qed
qed

subsection \<open>Rounding to binary32\<close>

text \<open>
  A rounding that does not overflow is within half a unit in the last place of the exact
  result; the operations on finite values are the exact operations followed by one such
  rounding.
\<close>

lemma rne_error: "\<bar>of_int (rne q) - q\<bar> \<le> 1 / 2"
  unfolding rne_def Let_def by (auto simp: abs_if) linarith+

lemma rne_nonneg: "0 \<le> q \<Longrightarrow> 0 \<le> rne q"
  unfolding rne_def Let_def by (auto simp: ) 

lemma round_mag_nonneg: "0 \<le> m \<Longrightarrow> 0 \<le> round_mag m"
  by (auto simp: round_mag_def rne_nonneg)

lemma round_mag_ulp: "\<bar>round_mag m - m\<bar> \<le> 2 powi ulp_exp m / 2"
proof (cases "m = 0")
  case True
  then show ?thesis by (simp add: round_mag_def)
next
  case False
  let ?U = "(2::real) powi ulp_exp m"
  have U: "0 < ?U" by simp
  have "round_mag m - m = (of_int (rne (m / ?U)) - m / ?U) * ?U"
    using False U by (simp add: round_mag_def algebra_simps)
  then have "\<bar>round_mag m - m\<bar> = \<bar>of_int (rne (m / ?U)) - m / ?U\<bar> * ?U"
    using U by (simp add: abs_mult)
  also have "\<dots> \<le> 1 / 2 * ?U"
    using rne_error [of "m / ?U"] U by (intro mult_right_mono) simp_all
  finally show ?thesis by simp
qed

lemma two_powi_floor_log:
  assumes "0 < (m::real)"
  shows "2 powi \<lfloor>log 2 m\<rfloor> \<le> m"
proof -
  have "2 powr (of_int \<lfloor>log 2 m\<rfloor>) \<le> 2 powr (log 2 m)"
    by (intro powr_mono) simp_all
  then show ?thesis
    using assms by (simp add: powr_real_of_int')
qed

lemma round_mag_error:
  assumes "0 \<le> m"
  shows "\<bar>round_mag m - m\<bar> \<le> m / 2 ^ 24 + 1 / 2 ^ 150"
proof (cases "m = 0")
  case True
  then show ?thesis by (simp add: round_mag_def)
next
  case False
  then have m: "0 < m" using assms by simp
  show ?thesis
  proof (cases "- 149 \<le> \<lfloor>log 2 m\<rfloor> - 23")
    case True
    then have "ulp_exp m = \<lfloor>log 2 m\<rfloor> - 23"
      by (simp add: ulp_exp_def)
    then have "2 powi ulp_exp m = 2 powi \<lfloor>log 2 m\<rfloor> / (2::real) ^ 23"
      by (simp add: power_int_diff)
    also have "\<dots> \<le> m / 2 ^ 23"
      using two_powi_floor_log [OF m] by (simp add: divide_right_mono)
    finally have "2 powi ulp_exp m / 2 \<le> m / 2 ^ 24"
      by simp
    moreover have "(0::real) \<le> 1 / 2 ^ 150"
      by simp
    ultimately show ?thesis
      using round_mag_ulp [of m] by linarith
  next
    case False
    then have "ulp_exp m = - 149"
      by (simp add: ulp_exp_def)
    then have "2 powi ulp_exp m / 2 = 1 / (2::real) ^ 150"
      by (simp add: power_int_minus_divide)
    then show ?thesis
      using round_mag_ulp [of m] m by simp
  qed
qed

lemma b32_round_near:
  assumes "\<bar>v\<bar> = m" "m \<le> 2 ^ 127" "v < 0 \<Longrightarrow> s" "0 < v \<Longrightarrow> \<not> s"
  shows "b32_finite (b32_round s m) \<and> b32_near (b32_val (b32_round s m)) v"
proof -
  have m: "0 \<le> m" using assms(1) by auto
  note e = round_mag_error [OF m]
  have r: "0 \<le> round_mag m" by (rule round_mag_nonneg [OF m])
  have "round_mag m \<le> m + m / 2 ^ 24 + 1 / 2 ^ 150"
    using e by linarith
  also have "\<dots> < 2 ^ 128"
    using assms(2) by simp
  finally have lt: "round_mag m < 2 ^ 128" .
  have z: "v = 0 \<Longrightarrow> round_mag m = 0"
    using assms(1) by (auto simp: round_mag_def)
  have fin: "b32_finite (b32_round s m)"
    using lt by (simp add: b32_round_def Let_def b32_finite_def)
  have val: "b32_val (b32_round s m) = (if s then - round_mag m else round_mag m)"
    using lt by (simp add: b32_round_def Let_def b32_val_def)
  have "\<bar>b32_val (b32_round s m) - v\<bar> = \<bar>round_mag m - m\<bar>"
  proof (cases "v = 0")
    case True
    then show ?thesis unfolding val using z assms(1) by simp
  next
    case False
    then consider "v < 0" | "0 < v" by linarith
    then show ?thesis
    proof cases
      case 1
      then have "b32_val (b32_round s m) - v = - (round_mag m - m)"
        unfolding val using assms(1,3) by simp
      then show ?thesis by (simp only: abs_minus_cancel)
    next
      case 2
      then have "b32_val (b32_round s m) - v = round_mag m - m"
        unfolding val using assms(1,4) by simp
      then show ?thesis by simp
    qed
  qed
  then show ?thesis
    using e fin assms(1) by (simp add: b32_near_def)
qed

lemma b32_neg_val:
  assumes "b32_finite a"
  shows "b32_val a < 0 \<Longrightarrow> b32_neg a" "0 < b32_val a \<Longrightarrow> \<not> b32_neg a"
  using assms by (cases a; simp add: b32_finite_def b32_val_def b32_neg_def)+

lemma b32_finite_simps [simp]:
  "b32_finite (Fin v)" "b32_finite NZero" "\<not> b32_finite (Inf s)" "\<not> b32_finite NaN"
  "b32_val (Fin v) = v" "b32_val NZero = 0"
  "b32_is_inf (Inf s)" "\<not> b32_is_inf (Fin v)" "\<not> b32_is_inf NZero" "\<not> b32_is_inf NaN"
  by (simp_all add: b32_finite_def b32_val_def b32_is_inf_def)

lemma b32_mul_near:
  assumes "b32_finite a" "b32_finite b" "\<bar>b32_val a * b32_val b\<bar> \<le> 2 ^ 127"
  shows "b32_finite (b32_mul a b) \<and> b32_near (b32_val (b32_mul a b)) (b32_val a * b32_val b)"
proof -
  have eq: "b32_mul a b = b32_round (b32_neg a \<noteq> b32_neg b) (\<bar>b32_val a\<bar> * \<bar>b32_val b\<bar>)"
    using assms(1,2) by (cases a; cases b; simp add: b32_mul_def)
  have "b32_finite (b32_round (b32_neg a \<noteq> b32_neg b) (\<bar>b32_val a\<bar> * \<bar>b32_val b\<bar>)) \<and>
        b32_near (b32_val (b32_round (b32_neg a \<noteq> b32_neg b) (\<bar>b32_val a\<bar> * \<bar>b32_val b\<bar>)))
          (b32_val a * b32_val b)"
  proof (rule b32_round_near)
    show "\<bar>b32_val a * b32_val b\<bar> = \<bar>b32_val a\<bar> * \<bar>b32_val b\<bar>"
      by (simp add: abs_mult)
    show "\<bar>b32_val a\<bar> * \<bar>b32_val b\<bar> \<le> 2 ^ 127"
      using assms(3) by (simp add: abs_mult)
    show "b32_neg a \<noteq> b32_neg b" if "b32_val a * b32_val b < 0"
      using that b32_neg_val [OF assms(1)] b32_neg_val [OF assms(2)]
      by (auto simp: mult_less_0_iff)
    show "\<not> (b32_neg a \<noteq> b32_neg b)" if "0 < b32_val a * b32_val b"
      using that b32_neg_val [OF assms(1)] b32_neg_val [OF assms(2)]
      by (auto simp: zero_less_mult_iff)
  qed
  then show ?thesis by (simp add: eq)
qed

lemma b32_add_near:
  assumes "b32_finite a" "b32_finite b" "\<bar>b32_val a + b32_val b\<bar> \<le> 2 ^ 127"
  shows "b32_finite (b32_add a b) \<and> b32_near (b32_val (b32_add a b)) (b32_val a + b32_val b)"
proof (cases "b32_val a + b32_val b = 0")
  case True
  then show ?thesis
    using assms(1,2) by (cases a; cases b; simp add: b32_add_def b32_near_def)
next
  case False
  then have eq: "b32_add a b =
      b32_round (b32_val a + b32_val b < 0) \<bar>b32_val a + b32_val b\<bar>"
    using assms(1,2) by (cases a; cases b; simp add: b32_add_def Let_def)
  show ?thesis
    unfolding eq using assms(3) by (intro b32_round_near) simp_all
qed

lemma b32_minus_val:
  assumes "b32_finite a"
  shows "b32_finite (b32_minus a)" "b32_val (b32_minus a) = - b32_val a"
  using assms by (cases a; simp add: b32_minus_def)+

lemma b32_sub_near:
  assumes "b32_finite a" "b32_finite b" "\<bar>b32_val a - b32_val b\<bar> \<le> 2 ^ 127"
  shows "b32_finite (b32_sub a b) \<and> b32_near (b32_val (b32_sub a b)) (b32_val a - b32_val b)"
  using b32_add_near [of a "b32_minus b"] assms
  by (simp add: b32_sub_def b32_minus_val)

lemma b32_sub_self:
  assumes "b32_finite a"
  shows "b32_sub a a = Fin 0"
  using assms by (cases a; simp add: b32_sub_def b32_add_def b32_minus_def b32_neg_def)

lemma b32_div_near:
  assumes "b32_finite a" "b32_finite b" "b32_val b \<noteq> 0" "\<bar>b32_val a / b32_val b\<bar> \<le> 2 ^ 127"
  shows "b32_finite (b32_div a b) \<and> b32_near (b32_val (b32_div a b)) (b32_val a / b32_val b)"
proof -
  have nz: "\<not> b32_is_zero b"
    using assms(3) by (auto simp: b32_is_zero_def)
  have eq: "b32_div a b = b32_round (b32_neg a \<noteq> b32_neg b) (\<bar>b32_val a\<bar> / \<bar>b32_val b\<bar>)"
    using assms(1,2) nz by (cases a; cases b; simp add: b32_div_def)
  have "b32_finite (b32_round (b32_neg a \<noteq> b32_neg b) (\<bar>b32_val a\<bar> / \<bar>b32_val b\<bar>)) \<and>
        b32_near (b32_val (b32_round (b32_neg a \<noteq> b32_neg b) (\<bar>b32_val a\<bar> / \<bar>b32_val b\<bar>)))
          (b32_val a / b32_val b)"
  proof (rule b32_round_near)
    show "\<bar>b32_val a / b32_val b\<bar> = \<bar>b32_val a\<bar> / \<bar>b32_val b\<bar>"
      by simp
    show "\<bar>b32_val a\<bar> / \<bar>b32_val b\<bar> \<le> 2 ^ 127"
      using assms(4) by simp
    show "b32_neg a \<noteq> b32_neg b" if "b32_val a / b32_val b < 0"
      using that b32_neg_val [OF assms(1)] b32_neg_val [OF assms(2)]
      by (auto simp: divide_less_0_iff)
    show "\<not> (b32_neg a \<noteq> b32_neg b)" if "0 < b32_val a / b32_val b"
      using that b32_neg_val [OF assms(1)] b32_neg_val [OF assms(2)]
      by (auto simp: zero_less_divide_iff)
  qed
  then show ?thesis by (simp add: eq)
qed

lemma b32_sqrt_near:
  assumes "b32_finite a" "0 \<le> b32_val a" "sqrt (b32_val a) \<le> 2 ^ 127"
  shows "b32_finite (b32_sqrt a) \<and> b32_near (b32_val (b32_sqrt a)) (sqrt (b32_val a))"
proof (cases a)
  case (Fin v)
  then have eq: "b32_sqrt a = b32_round False (sqrt v)"
    using assms(2) by (simp add: b32_sqrt_def)
  show ?thesis
    unfolding eq using assms(2,3) Fin by (intro b32_round_near) simp_all
next
  case NZero
  then show ?thesis by (simp add: b32_sqrt_def b32_near_def)
qed (use assms in simp_all)

subsection \<open>The rounding error of a normalised vector\<close>

text \<open>
  The error of the squared length, of its square root, of the reciprocal and of the three
  products, over the reals.
\<close>

lemma abs_bounds:
  fixes x y e :: real
  assumes "\<bar>x - y\<bar> \<le> e"
  shows "y - e \<le> x" "x \<le> y + e"
  using assms by linarith+

lemma b32_near_bounds:
  assumes "b32_near r v" "0 \<le> v"
  shows "v - v / 2 ^ 24 - 1 / 2 ^ 150 \<le> r" "r \<le> v + v / 2 ^ 24 + 1 / 2 ^ 150"
  using assms unfolding b32_near_def by linarith+

lemma dot_error:
  fixes X Y Z a b c s D :: real
  assumes X: "0 \<le> X" and Y: "1 / 2 ^ 120 \<le> Y" and Z: "0 \<le> Z"
    and a: "b32_near a X" and b: "b32_near b Y" and c: "b32_near c Z"
    and s: "b32_near s (a + b)" and D: "b32_near D (s + c)"
  shows "\<bar>D - (X + Y + Z)\<bar> \<le> (X + Y + Z) / 2 ^ 22"
proof -
  have Y0: "0 \<le> Y"
    using Y by (rule order_trans [rotated]) simp
  have e: "1 / 2 ^ 150 \<le> Y / 2 ^ 30"
    using Y by simp
  note a' = b32_near_bounds [OF a X]
  note b' = b32_near_bounds [OF b Y0]
  note c' = b32_near_bounds [OF c Z]
  have ab: "0 \<le> a + b"
    using a' b' e X Y0 by (simp; argo)
  note s' = b32_near_bounds [OF s ab]
  have ab': "Y - Y / 2 ^ 23 \<le> a + b"
    using a'(1) b'(1) e X Y0 by (simp; argo)
  have sc: "0 \<le> s + c"
    using ab' c'(1) s'(1) e Y0 Z by (simp; argo)
  note D' = b32_near_bounds [OF D sc]
  have "X + Y + Z - (X + Y + Z) / 2 ^ 22 \<le> D"
    using a' b' c' s' D' e X Y0 Z by (simp; argo)
  moreover have "D \<le> X + Y + Z + (X + Y + Z) / 2 ^ 22"
    using a' b' c' s' D' e X Y0 Z by (simp; argo)
  ultimately show ?thesis
    unfolding abs_le_iff by linarith
qed

lemma sqrt_error:
  fixes d D q :: real
  assumes d: "1 / 2 ^ 120 \<le> d" and D: "\<bar>D - d\<bar> \<le> d / 2 ^ 22" and q: "b32_near q (sqrt D)"
  shows "\<bar>q - sqrt d\<bar> \<le> sqrt d / 2 ^ 21"
proof -
  have d0: "0 < d"
    using d by (rule less_le_trans [rotated]) simp
  have S: "1 / 2 ^ 60 \<le> sqrt d"
    using d by (intro real_le_rsqrt) (simp add: power_divide)
  have S2: "(sqrt d)\<^sup>2 = d"
    using d0 by simp
  have "sqrt D \<le> sqrt d * (1 + 1 / 2 ^ 22)"
  proof (rule real_le_lsqrt)
    show "0 \<le> sqrt d * (1 + 1 / 2 ^ 22)"
      using d0 by simp
    have "D \<le> d * (1 + 1 / 2 ^ 22)"
      using abs_bounds(2) [OF D] by (simp add: algebra_simps)
    also have "\<dots> \<le> d * (1 + 1 / 2 ^ 22)\<^sup>2"
      using d0 by (intro mult_left_mono) (simp_all add: power2_eq_square)
    finally show "D \<le> (sqrt d * (1 + 1 / 2 ^ 22))\<^sup>2"
      by (simp only: power_mult_distrib S2)
  qed
  moreover have "sqrt d * (1 - 1 / 2 ^ 22) \<le> sqrt D"
  proof (rule real_le_rsqrt)
    have "(sqrt d * (1 - 1 / 2 ^ 22))\<^sup>2 = d * (1 - 1 / 2 ^ 22)\<^sup>2"
      by (simp only: power_mult_distrib S2)
    also have "\<dots> \<le> d * (1 - 1 / 2 ^ 22)"
      using d0 by (intro mult_left_mono) (simp_all add: power2_eq_square)
    also have "\<dots> \<le> D"
      using abs_bounds(1) [OF D] by (simp add: algebra_simps)
    finally show "(sqrt d * (1 - 1 / 2 ^ 22))\<^sup>2 \<le> D" .
  qed
  moreover have D0: "0 \<le> sqrt D"
    using d0 abs_bounds(1) [OF D] by (intro real_sqrt_ge_zero) (simp; argo)
  moreover note b32_near_bounds [OF q D0]
  ultimately have "sqrt d - sqrt d / 2 ^ 21 \<le> q" "q \<le> sqrt d + sqrt d / 2 ^ 21"
    using S by (simp; argo)+
  then show ?thesis
    unfolding abs_le_iff by linarith
qed

lemma recip_error:
  fixes S q t :: real
  assumes S: "1 / 2 ^ 60 \<le> S" "S \<le> 2 ^ 63" and q: "\<bar>q - S\<bar> \<le> S / 2 ^ 21"
    and t: "b32_near t (1 / q)"
  shows "\<bar>t * S - 1\<bar> \<le> 5 / 2 ^ 22"
proof -
  have S0: "0 < S"
    using S(1) by (rule less_le_trans [rotated]) simp
  note q' = abs_bounds [OF q]
  have q0: "0 < q"
    using q'(1) S0 by (simp; argo)
  define r where "r = S / q"
  have "(1 - 1 / 2 ^ 21) * q \<le> S"
    using q' S0 by (simp; argo)
  then have lo: "1 - 1 / 2 ^ 21 \<le> r"
    unfolding r_def using q0 by (simp only: pos_le_divide_eq)
  have "S \<le> (1 + 2 / 2 ^ 21) * q"
    using q' S0 by (simp; argo)
  then have hi: "r \<le> 1 + 2 / 2 ^ 21"
    unfolding r_def using q0 by (simp only: pos_divide_le_eq)
  have "t * S - r = (t - 1 / q) * S"
    by (simp add: r_def algebra_simps)
  then have "\<bar>t * S - r\<bar> = \<bar>t - 1 / q\<bar> * S"
    using S0 by (simp add: abs_mult)
  also have "\<dots> \<le> (\<bar>1 / q\<bar> / 2 ^ 24 + 1 / 2 ^ 150) * S"
    using t S0 unfolding b32_near_def by (intro mult_right_mono) simp_all
  also have "\<dots> = r / 2 ^ 24 + S / 2 ^ 150"
    using q0 by (simp add: r_def algebra_simps)
  also have "\<dots> \<le> r / 2 ^ 24 + 1 / 2 ^ 87"
    using S(2) by simp
  finally have "\<bar>t * S - r\<bar> \<le> r / 2 ^ 24 + 1 / 2 ^ 87" .
  note abs_bounds [OF this]
  then have "1 - 5 / 2 ^ 22 \<le> t * S" "t * S \<le> 1 + 5 / 2 ^ 22"
    using lo hi by (simp; argo)+
  then show ?thesis
    unfolding abs_le_iff by linarith
qed

lemma unit_error:
  fixes w1 w2 w3 \<theta> n1 n2 n3 :: real
  assumes w: "w1\<^sup>2 + w2\<^sup>2 + w3\<^sup>2 = 1" and \<theta>: "\<bar>\<theta>\<bar> \<le> 5 / 2 ^ 22"
    and n: "\<bar>n1 - w1 * (1 + \<theta>)\<bar> \<le> 1 / 2 ^ 23" "\<bar>n2 - w2 * (1 + \<theta>)\<bar> \<le> 1 / 2 ^ 23"
      "\<bar>n3 - w3 * (1 + \<theta>)\<bar> \<le> 1 / 2 ^ 23"
  shows "\<bar>n1\<^sup>2 + n2\<^sup>2 + n3\<^sup>2 - 1\<bar> \<le> 1 / 2 ^ 18"
proof -
  define K :: real where "K = 2 + 1 / 2 ^ 10"
  have comp: "\<bar>n\<^sup>2 - (v * (1 + \<theta>))\<^sup>2\<bar> \<le> K / 2 ^ 23"
    if v: "v\<^sup>2 \<le> 1" and e: "\<bar>n - v * (1 + \<theta>)\<bar> \<le> 1 / 2 ^ 23" for n v :: real
  proof -
    have "\<bar>v\<bar> \<le> 1"
      using v abs_le_square_iff [of v 1] by simp
    moreover have "\<bar>1 + \<theta>\<bar> \<le> 1 + 5 / 2 ^ 22"
      using \<theta> by linarith
    ultimately have "\<bar>v\<bar> * \<bar>1 + \<theta>\<bar> \<le> 1 * (1 + 5 / 2 ^ 22)"
      by (intro mult_mono) simp_all
    then have g: "\<bar>v * (1 + \<theta>)\<bar> \<le> 1 + 5 / 2 ^ 22"
      by (simp only: abs_mult mult_1)
    have "\<bar>n + v * (1 + \<theta>)\<bar> \<le> \<bar>n - v * (1 + \<theta>)\<bar> + 2 * \<bar>v * (1 + \<theta>)\<bar>"
      by linarith
    also have "\<dots> \<le> 1 / 2 ^ 23 + 2 * (1 + 5 / 2 ^ 22)"
      by (intro add_mono mult_left_mono e g) simp
    also have "\<dots> \<le> K"
      unfolding K_def by simp
    finally have "\<bar>n + v * (1 + \<theta>)\<bar> \<le> K" .
    moreover have "n\<^sup>2 - (v * (1 + \<theta>))\<^sup>2 = (n - v * (1 + \<theta>)) * (n + v * (1 + \<theta>))"
      by (simp add: power2_eq_square algebra_simps)
    ultimately have "\<bar>n\<^sup>2 - (v * (1 + \<theta>))\<^sup>2\<bar> \<le> 1 / 2 ^ 23 * K"
      using e by (simp only: abs_mult) (intro mult_mono, simp_all)
    then show ?thesis by simp
  qed
  have sq: "0 \<le> w1\<^sup>2" "0 \<le> w2\<^sup>2" "0 \<le> w3\<^sup>2"
    by simp_all
  have c1: "\<bar>n1\<^sup>2 - (w1 * (1 + \<theta>))\<^sup>2\<bar> \<le> K / 2 ^ 23"
    using w sq by (intro comp n) linarith
  have c2: "\<bar>n2\<^sup>2 - (w2 * (1 + \<theta>))\<^sup>2\<bar> \<le> K / 2 ^ 23"
    using w sq by (intro comp n) linarith
  have c3: "\<bar>n3\<^sup>2 - (w3 * (1 + \<theta>))\<^sup>2\<bar> \<le> K / 2 ^ 23"
    using w sq by (intro comp n) linarith
  have "(w1 * (1 + \<theta>))\<^sup>2 + (w2 * (1 + \<theta>))\<^sup>2 + (w3 * (1 + \<theta>))\<^sup>2 =
        (w1\<^sup>2 + w2\<^sup>2 + w3\<^sup>2) * (1 + \<theta>)\<^sup>2"
    by (simp only: power_mult_distrib distrib_right)
  also have "\<dots> = (1 + \<theta>)\<^sup>2"
    by (simp only: w mult_1)
  also have "\<dots> = 1 + \<theta> * (2 + \<theta>)"
    by (simp add: power2_eq_square algebra_simps)
  finally have sum:
    "(w1 * (1 + \<theta>))\<^sup>2 + (w2 * (1 + \<theta>))\<^sup>2 + (w3 * (1 + \<theta>))\<^sup>2 = 1 + \<theta> * (2 + \<theta>)" .
  have "\<bar>2 + \<theta>\<bar> \<le> K"
    using \<theta> unfolding K_def by (simp; argo)
  then have "\<bar>\<theta>\<bar> * \<bar>2 + \<theta>\<bar> \<le> 5 / 2 ^ 22 * K"
    using \<theta> by (intro mult_mono) simp_all
  then have t: "\<bar>\<theta> * (2 + \<theta>)\<bar> \<le> 5 / 2 ^ 22 * K"
    by (simp only: abs_mult)
  have "\<bar>n1\<^sup>2 + n2\<^sup>2 + n3\<^sup>2 - 1\<bar> \<le>
        \<bar>n1\<^sup>2 - (w1 * (1 + \<theta>))\<^sup>2\<bar> + \<bar>n2\<^sup>2 - (w2 * (1 + \<theta>))\<^sup>2\<bar> +
        \<bar>n3\<^sup>2 - (w3 * (1 + \<theta>))\<^sup>2\<bar> + \<bar>\<theta> * (2 + \<theta>)\<bar>"
    using sum by linarith
  also have "\<dots> \<le> K / 2 ^ 23 + K / 2 ^ 23 + K / 2 ^ 23 + 5 / 2 ^ 22 * K"
    using c1 c2 c3 t by linarith
  also have "\<dots> \<le> 1 / 2 ^ 18"
    unfolding K_def by simp
  finally show ?thesis .
qed

lemma sqrt_near_one:
  assumes "0 \<le> (Q::real)"
  shows "\<bar>sqrt Q - 1\<bar> \<le> \<bar>Q - 1\<bar>"
proof -
  have "Q - 1 = (sqrt Q - 1) * (sqrt Q + 1)"
    using assms by (simp add: algebra_simps)
  then have "\<bar>Q - 1\<bar> = \<bar>sqrt Q - 1\<bar> * (sqrt Q + 1)"
    using assms by (simp add: abs_mult)
  moreover have "\<bar>sqrt Q - 1\<bar> * 1 \<le> \<bar>sqrt Q - 1\<bar> * (sqrt Q + 1)"
    using assms by (intro mult_left_mono) simp_all
  ultimately show ?thesis by simp
qed

subsection \<open>Evaluating a rounding\<close>

text \<open>A binary32 number rounds to itself.\<close>

lemma floor_log2_eq:
  assumes "2 powi k \<le> (m::real)" "m < 2 powi (k + 1)"
  shows "\<lfloor>log 2 m\<rfloor> = k"
proof -
  have "0 < (2::real) powi k" by simp
  then have m: "0 < m" using assms(1) by linarith
  have p: "(2::real) powr of_int i = 2 powi i" for i
    by (simp add: powr_real_of_int')
  have "\<lfloor>log 2 m\<rfloor> = k \<longleftrightarrow> 2 powr of_int k \<le> m \<and> m < 2 powr of_int (k + 1)"
    by (rule floor_log_eq_powr_iff [OF m]) simp
  then show ?thesis
    using assms unfolding p by blast
qed

lemma round_mag_eval:
  assumes "2 powi k \<le> m" "m < 2 powi (k + 1)"
  shows "round_mag m =
    of_int (rne (m / 2 powi (max (k - 23) (- 149)))) * 2 powi (max (k - 23) (- 149))"
proof -
  have "0 < (2::real) powi k" by simp
  then have m: "m \<noteq> 0" using assms(1) by linarith
  show ?thesis
    using m by (simp add: round_mag_def ulp_exp_def floor_log2_eq [OF assms])
qed

lemma rne_of_int [simp]: "rne (of_int n) = n"
  by (simp add: rne_def)

lemma round_mag_exact:
  assumes n: "0 < n" "n < 2 ^ 24" and e: "- 149 \<le> e"
  shows "round_mag (of_int n * 2 powi e) = of_int n * 2 powi e"
proof -
  define m :: real where "m = of_int n * 2 powi e"
  define U where "U = ulp_exp m"
  have m: "0 < m" using n by (simp add: m_def)
  have "(of_int n :: real) < of_int (2 ^ 24)"
    using n(2) by (simp only: of_int_less_iff)
  then have "m < 2 ^ 24 * 2 powi e"
    unfolding m_def by (intro mult_strict_right_mono) simp_all
  also have "\<dots> = 2 powi (e + 24)"
    by (simp add: power_int_add)
  finally have lt: "2 powi \<lfloor>log 2 m\<rfloor> < (2::real) powi (e + 24)"
    using two_powi_floor_log [OF m] by linarith
  have "\<lfloor>log 2 m\<rfloor> < e + 24"
  proof (rule ccontr)
    assume "\<not> \<lfloor>log 2 m\<rfloor> < e + 24"
    then have "(2::real) powi (e + 24) \<le> 2 powi \<lfloor>log 2 m\<rfloor>"
      by (intro power_int_increasing) simp_all
    then show False
      using lt by linarith
  qed
  then have U: "U \<le> e"
    using e by (simp add: U_def ulp_exp_def)
  define j where "j = nat (e - U)"
  have e': "e = U + int j"
    using U by (simp add: j_def)
  have pw: "(2::real) powi e = 2 ^ j * 2 powi U"
    unfolding e' by (simp add: power_int_add)
  have "m / 2 powi U = of_int (n * 2 ^ j)"
    unfolding m_def pw by simp
  then have "rne (m / 2 powi U) = n * 2 ^ j"
    by (simp only: rne_of_int)
  then have "round_mag m = of_int (n * 2 ^ j) * 2 powi U"
    using m by (simp add: round_mag_def U_def)
  also have "\<dots> = m"
    unfolding m_def pw by simp
  finally show ?thesis
    unfolding m_def .
qed

subsection \<open>glm::normalize in binary32\<close>

lemma b32_lit_one: "b32_lit 1 = Fin 1"
  using round_mag_exact [of 1 0] by (simp add: b32_lit_def b32_round_def)

lemma b32_lit_two: "b32_lit 2 = Fin 2"
  using round_mag_exact [of 1 1] by (simp add: b32_lit_def b32_round_def)

lemma b32_mul_zero:
  assumes "b32_finite a" "b32_finite b" "b32_val a = 0"
  shows "b32_finite (b32_mul a b)" "b32_val (b32_mul a b) = 0"
proof -
  have "b32_mul a b = b32_round (b32_neg a \<noteq> b32_neg b) 0"
    using assms by (cases a; cases b; simp add: b32_mul_def)
  then show "b32_finite (b32_mul a b)" "b32_val (b32_mul a b) = 0"
    by (simp_all add: b32_round_def round_mag_def)
qed

lemma component_error:
  assumes x: "b32_finite x" and t: "b32_finite t" and S: "0 < S"
    and xS: "\<bar>b32_val x\<bar> \<le> S" and tS: "\<bar>b32_val t * S - 1\<bar> \<le> 5 / 2 ^ 22"
  shows "b32_finite (b32_mul x t) \<and> \<bar>b32_val (b32_mul x t) - b32_val x * b32_val t\<bar> \<le> 1 / 2 ^ 23"
proof -
  have "\<bar>b32_val t * S\<bar> \<le> 1 + 5 / 2 ^ 22"
    using tS by linarith
  then have "\<bar>b32_val x\<bar> * \<bar>b32_val t * S\<bar> \<le> S * (1 + 5 / 2 ^ 22)"
    using xS S by (intro mult_mono) simp_all
  then have "(\<bar>b32_val x\<bar> * \<bar>b32_val t\<bar>) * S \<le> (1 + 5 / 2 ^ 22) * S"
    using S by (simp add: abs_mult mult_ac)
  then have "\<bar>b32_val x\<bar> * \<bar>b32_val t\<bar> \<le> 1 + 5 / 2 ^ 22"
    using S by simp
  then have b: "\<bar>b32_val x * b32_val t\<bar> \<le> 1 + 5 / 2 ^ 22"
    by (simp only: abs_mult)
  then have "\<bar>b32_val x * b32_val t\<bar> \<le> 2 ^ 127"
    by (rule order_trans) simp
  from b32_mul_near [OF x t this]
  have f: "b32_finite (b32_mul x t)"
    and n: "\<bar>b32_val (b32_mul x t) - b32_val x * b32_val t\<bar> \<le>
            \<bar>b32_val x * b32_val t\<bar> / 2 ^ 24 + 1 / 2 ^ 150"
    by (simp_all add: b32_near_def)
  have "\<bar>b32_val x * b32_val t\<bar> / 2 ^ 24 + 1 / 2 ^ 150 \<le> 1 / 2 ^ 23"
    using b by (simp; argo)
  then show ?thesis
    using f n by linarith
qed

lemma b32_normalize_unit:
  assumes x: "b32_finite x" "\<bar>b32_val x\<bar> \<le> 2 ^ 62"
    and y: "b32_finite y" "1 / 2 ^ 60 \<le> b32_val y" "b32_val y \<le> 2 ^ 62"
    and z: "b32_finite z" "\<bar>b32_val z\<bar> \<le> 2 ^ 62"
  shows "\<exists>n1 n2 n3. b32_normalize (x, y, z) = (n1, n2, n3) \<and>
           b32_finite n1 \<and> b32_finite n2 \<and> b32_finite n3 \<and>
           \<bar>(b32_val n1)\<^sup>2 + (b32_val n2)\<^sup>2 + (b32_val n3)\<^sup>2 - 1\<bar> \<le> 1 / 2 ^ 18 \<and>
           (b32_val x = 0 \<and> b32_val z = 0 \<longrightarrow>
              b32_val n1 = 0 \<and> b32_val n3 = 0 \<and> \<bar>b32_val n2 - 1\<bar> \<le> 1 / 2 ^ 18)"
proof -
  define vx vy vz where "vx = b32_val x" and "vy = b32_val y" and "vz = b32_val z"
  define X Y Z where "X = vx * vx" and "Y = vy * vy" and "Z = vz * vz"
  define d where "d = X + Y + Z"
  define S where "S = sqrt d"
  have sq: "v * v \<le> 2 ^ 124" if "\<bar>v\<bar> \<le> 2 ^ 62" for v :: real
  proof -
    have "\<bar>v\<bar> * \<bar>v\<bar> \<le> 2 ^ 62 * 2 ^ 62"
      using that by (intro mult_mono) simp_all
    then show ?thesis by (simp add: abs_mult_self_eq)
  qed
  have X: "0 \<le> X" "X \<le> 2 ^ 124"
    using sq [OF x(2)] by (simp_all add: X_def vx_def)
  have Z: "0 \<le> Z" "Z \<le> 2 ^ 124"
    using sq [OF z(2)] by (simp_all add: Z_def vz_def)
  have vy: "0 < vy"
    using y(2) unfolding vy_def by (rule less_le_trans [rotated]) simp
  have "1 / 2 ^ 60 * (1 / 2 ^ 60) \<le> vy * vy"
    using y(2) unfolding vy_def by (intro mult_mono) simp_all
  then have Y: "1 / 2 ^ 120 \<le> Y"
    by (simp add: Y_def)
  have Y2: "Y \<le> 2 ^ 124"
    using sq [of vy] y(3) vy by (simp add: Y_def vy_def)
  have Y0: "0 \<le> Y"
    by (simp add: Y_def)
  define a b c where "a = b32_mul x x" and "b = b32_mul y y" and "c = b32_mul z z"
  have a: "b32_finite a" "b32_near (b32_val a) X"
    using b32_mul_near [OF x(1) x(1)] X by (simp_all add: a_def X_def vx_def)
  have b: "b32_finite b" "b32_near (b32_val b) Y"
    using b32_mul_near [OF y(1) y(1)] Y0 Y2 by (simp_all add: b_def Y_def vy_def)
  have c: "b32_finite c" "b32_near (b32_val c) Z"
    using b32_mul_near [OF z(1) z(1)] Z by (simp_all add: c_def Z_def vz_def)
  note a' = b32_near_bounds [OF a(2) X(1)]
  note b' = b32_near_bounds [OF b(2) Y0]
  note c' = b32_near_bounds [OF c(2) Z(1)]
  have e: "1 / 2 ^ 150 \<le> Y / 2 ^ 30"
    using Y by simp
  have ab: "0 \<le> b32_val a + b32_val b" "b32_val a + b32_val b \<le> 2 ^ 126"
    using a' b' e X Y0 Y2 by (simp; argo)+
  define s where "s = b32_add a b"
  have s: "b32_finite s" "b32_near (b32_val s) (b32_val a + b32_val b)"
    using b32_add_near [OF a(1) b(1)] ab by (simp_all add: s_def)
  note s' = b32_near_bounds [OF s(2) ab(1)]
  have ab': "Y - Y / 2 ^ 23 \<le> b32_val a + b32_val b"
    using a'(1) b'(1) e X(1) Y0 by (simp; argo)
  have sc: "0 \<le> b32_val s + b32_val c" "b32_val s + b32_val c \<le> 2 ^ 127"
    using ab ab' s' c' Z Y0 e by (simp; argo)+
  define D where "D = b32_add s c"
  have D: "b32_finite D" "b32_near (b32_val D) (b32_val s + b32_val c)"
    using b32_add_near [OF s(1) c(1)] sc by (simp_all add: D_def)
  have dD: "\<bar>b32_val D - d\<bar> \<le> d / 2 ^ 22"
    unfolding d_def by (rule dot_error [OF X(1) Y Z(1) a(2) b(2) c(2) s(2) D(2)])
  have d: "1 / 2 ^ 120 \<le> d" "d \<le> 2 ^ 126"
    using X Y Y2 Z by (simp_all add: d_def)
  have d0: "0 < d"
    using d(1) by (rule less_le_trans [rotated]) simp
  note dD' = abs_bounds [OF dD]
  have vD: "0 \<le> b32_val D" "b32_val D \<le> 2 ^ 127"
    using dD' d d0 by (simp; argo)+
  have "sqrt (b32_val D) \<le> 2 ^ 127"
  proof (rule real_le_lsqrt)
    have "(2::real) ^ 127 \<le> (2 ^ 127)\<^sup>2"
      by simp
    then show "b32_val D \<le> (2 ^ 127)\<^sup>2"
      using vD(2) by (rule order_trans [rotated])
  qed simp
  define q where "q = b32_sqrt D"
  have q: "b32_finite q" "b32_near (b32_val q) (sqrt (b32_val D))"
    using b32_sqrt_near [OF D(1) vD(1) \<open>sqrt (b32_val D) \<le> 2 ^ 127\<close>] by (simp_all add: q_def)
  have qS: "\<bar>b32_val q - S\<bar> \<le> S / 2 ^ 21"
    unfolding S_def by (rule sqrt_error [OF d(1) dD q(2)])
  have S: "1 / 2 ^ 60 \<le> S" "S \<le> 2 ^ 63"
  proof -
    show "1 / 2 ^ 60 \<le> S"
      unfolding S_def using d(1) by (intro real_le_rsqrt) (simp add: power_divide)
    show "S \<le> 2 ^ 63"
      unfolding S_def using d(2) by (intro real_le_lsqrt) simp_all
  qed
  have S0: "0 < S"
    using S(1) by (rule less_le_trans [rotated]) simp
  have S2: "S * S = d"
    using d0 by (simp add: S_def)
  note qS' = abs_bounds [OF qS]
  have vq: "1 / 2 ^ 61 \<le> b32_val q"
    using qS'(1) S by (simp; argo)
  have vq0: "0 < b32_val q"
    using vq by (rule less_le_trans [rotated]) simp
  have "1 / b32_val q \<le> 1 / (1 / 2 ^ 61)"
    using vq by (intro divide_left_mono) simp_all
  then have rq: "\<bar>b32_val (Fin 1) / b32_val q\<bar> \<le> 2 ^ 127"
    using vq0 by simp
  define t where "t = b32_div (b32_lit 1) q"
  have t: "b32_finite t" "b32_near (b32_val t) (1 / b32_val q)"
    using b32_div_near [OF _ q(1) _ rq] vq0 by (simp_all add: t_def b32_lit_one)
  have tS: "\<bar>b32_val t * S - 1\<bar> \<le> 5 / 2 ^ 22"
    by (rule recip_error [OF S qS t(2)])
  have le_S: "\<bar>v\<bar> \<le> S" if "v * v \<le> d" for v
  proof -
    have "\<bar>v\<bar> = sqrt (v * v)"
      by simp
    also have "\<dots> \<le> sqrt d"
      using that by (simp only: real_sqrt_le_iff)
    finally show ?thesis by (simp add: S_def)
  qed
  have xS: "\<bar>b32_val x\<bar> \<le> S" and yS: "\<bar>b32_val y\<bar> \<le> S" and zS: "\<bar>b32_val z\<bar> \<le> S"
    using X(1) Y0 Z(1) by (intro le_S; simp add: d_def X_def Y_def Z_def vx_def vy_def vz_def)+
  define n1 n2 n3 where "n1 = b32_mul x t" and "n2 = b32_mul y t" and "n3 = b32_mul z t"
  note c1 = component_error [OF x(1) t(1) S0 xS tS, folded n1_def]
  note c2 = component_error [OF y(1) t(1) S0 yS tS, folded n2_def]
  note c3 = component_error [OF z(1) t(1) S0 zS tS, folded n3_def]
  define \<theta> where "\<theta> = b32_val t * S - 1"
  have w: "v / S * (1 + \<theta>) = v * b32_val t" for v
    using S0 by (simp add: \<theta>_def)
  have "(vx / S)\<^sup>2 + (vy / S)\<^sup>2 + (vz / S)\<^sup>2 = (X + Y + Z) / (S * S)"
    by (simp add: power2_eq_square X_def Y_def Z_def add_divide_distrib)
  also have "\<dots> = 1"
    using d0 by (simp add: S2 d_def)
  finally have unit: "(vx / S)\<^sup>2 + (vy / S)\<^sup>2 + (vz / S)\<^sup>2 = 1" .
  have e1: "\<bar>b32_val n1 - vx / S * (1 + \<theta>)\<bar> \<le> 1 / 2 ^ 23"
    using c1 by (simp only: w vx_def)
  have e2: "\<bar>b32_val n2 - vy / S * (1 + \<theta>)\<bar> \<le> 1 / 2 ^ 23"
    using c2 by (simp only: w vy_def)
  have e3: "\<bar>b32_val n3 - vz / S * (1 + \<theta>)\<bar> \<le> 1 / 2 ^ 23"
    using c3 by (simp only: w vz_def)
  have \<theta>: "\<bar>\<theta>\<bar> \<le> 5 / 2 ^ 22"
    using tS by (simp only: \<theta>_def)
  have mag: "\<bar>(b32_val n1)\<^sup>2 + (b32_val n2)\<^sup>2 + (b32_val n3)\<^sup>2 - 1\<bar> \<le> 1 / 2 ^ 18"
    by (rule unit_error [OF unit \<theta> e1 e2 e3])
  have flat: "b32_val n1 = 0 \<and> b32_val n3 = 0 \<and> \<bar>b32_val n2 - 1\<bar> \<le> 1 / 2 ^ 18"
    if "b32_val x = 0" "b32_val z = 0"
  proof -
    have "d = vy * vy"
      using that by (simp add: d_def X_def Y_def Z_def vx_def vz_def)
    then have "S = vy"
      using vy by (simp add: S_def)
    then have "b32_val y * b32_val t = 1 + \<theta>"
      by (simp add: \<theta>_def vy_def mult.commute)
    then have "\<bar>b32_val n2 - (1 + \<theta>)\<bar> \<le> 1 / 2 ^ 23"
      using c2 by simp
    then have "\<bar>b32_val n2 - 1\<bar> \<le> 1 / 2 ^ 23 + 5 / 2 ^ 22"
      using \<theta> by linarith
    also have "\<dots> \<le> 1 / 2 ^ 18"
      by simp
    finally show ?thesis
      using b32_mul_zero(2) [OF x(1) t(1) that(1)] b32_mul_zero(2) [OF z(1) t(1) that(2)]
      by (simp add: n1_def n3_def)
  qed
  have "b32_normalize (x, y, z) = (n1, n2, n3)"
    by (simp add: b32_normalize_def Let_def n1_def n2_def n3_def t_def q_def D_def s_def
        a_def b_def c_def)
  then show ?thesis
    using c1 c2 c3 mag flat by blast
qed

subsection \<open>The normal of a lattice point in binary32\<close>

lemma b32_fpu_fields [simp]:
  "flit (b32_fpu pw ns) = b32_lit" "fint (b32_fpu pw ns) = b32_int"
  "fadd (b32_fpu pw ns) = b32_add" "fsub (b32_fpu pw ns) = b32_sub"
  "fmul (b32_fpu pw ns) = b32_mul" "fdiv (b32_fpu pw ns) = b32_div"
  "fpow (b32_fpu pw ns) = pw" "stb_perlin_noise3 (b32_fpu pw ns) = ns"
  "glm_normalize (b32_fpu pw ns) = b32_normalize"
  by (simp_all add: b32_fpu_def)

lemma vertex_normal:
  "take 3 (drop 3 (generateTerrain_vertex P heights N scale z x)) =
     (case neighbour_heights heights N z x of (hLeft, hRight, hDown, hUp) \<Rightarrow>
        let normal = glm_normalize P (fsub P hLeft hRight, fmul P (flit P 2) scale, fsub P hDown hUp)
        in [fst normal, fst (snd normal), snd (snd normal)])"
  by (simp add: generateTerrain_vertex_def neighbour_heights_def Let_def)

lemma neighbours_in_grid:
  assumes len: "length hs = nat (N * N)" and z: "0 \<le> z" "z < N" and x: "0 \<le> x" "x < N"
    and hs: "\<forall>h\<in>set hs. Q h"
    and nb: "neighbour_heights hs N z x = (hLeft, hRight, hDown, hUp)"
  shows "Q hLeft \<and> Q hRight \<and> Q hDown \<and> Q hUp"
proof -
  have mem: "hs ! nat (z' * N + x') \<in> set hs"
    if "0 \<le> z'" "z' < N" "0 \<le> x'" "x' < N" for z' x'
  proof -
    have "nat (z' * N + x') < nat N * nat N"
      using that by (rule lattice_index_less)
    moreover have "nat N * nat N = nat (N * N)"
      using z by (simp add: nat_mult_distrib)
    ultimately show ?thesis
      using len by simp
  qed
  have branch: "(if c then a else b) \<in> set hs"
    if "c \<Longrightarrow> a \<in> set hs" "\<not> c \<Longrightarrow> b \<in> set hs" for c a b
    using that by simp
  have "(if x > 0 then hs ! nat (z * N + (x - 1)) else hs ! nat (z * N + x)) \<in> set hs"
    by (rule branch; rule mem; use z x in linarith)
  moreover
  have "(if x < N - 1 then hs ! nat (z * N + (x + 1)) else hs ! nat (z * N + x)) \<in> set hs"
    by (rule branch; rule mem; use z x in linarith)
  moreover
  have "(if z > 0 then hs ! nat ((z - 1) * N + x) else hs ! nat (z * N + x)) \<in> set hs"
    by (rule branch; rule mem; use z x in linarith)
  moreover
  have "(if z < N - 1 then hs ! nat ((z + 1) * N + x) else hs ! nat (z * N + x)) \<in> set hs"
    by (rule branch; rule mem; use z x in linarith)
  ultimately have "hLeft \<in> set hs" "hRight \<in> set hs" "hDown \<in> set hs" "hUp \<in> set hs"
    using nb unfolding neighbour_heights_def by blast+
  then show ?thesis
    using hs by blast
qed

lemma b32_sub_flat:
  assumes "b32_finite a" "b32_finite b" "b32_val a = b32_val b"
  shows "b32_finite (b32_sub a b)" "b32_val (b32_sub a b) = 0"
  using assms
  by (cases a; cases b; simp add: b32_sub_def b32_add_def b32_minus_def b32_neg_def)+

lemma b32_sub_bounded:
  assumes a: "b32_finite a" "\<bar>b32_val a\<bar> \<le> 2 ^ 60" and b: "b32_finite b" "\<bar>b32_val b\<bar> \<le> 2 ^ 60"
  shows "b32_finite (b32_sub a b)" "\<bar>b32_val (b32_sub a b)\<bar> \<le> 2 ^ 62"
proof -
  have d: "\<bar>b32_val a - b32_val b\<bar> \<le> 2 ^ 61"
    using a(2) b(2) by simp
  then have "\<bar>b32_val a - b32_val b\<bar> \<le> 2 ^ 127"
    by (rule order_trans) simp
  from b32_sub_near [OF a(1) b(1) this]
  have f: "b32_finite (b32_sub a b)"
    and n: "\<bar>b32_val (b32_sub a b) - (b32_val a - b32_val b)\<bar> \<le>
            \<bar>b32_val a - b32_val b\<bar> / 2 ^ 24 + 1 / 2 ^ 150"
    by (simp_all add: b32_near_def)
  show "b32_finite (b32_sub a b)" by (rule f)
  have "\<bar>b32_val (b32_sub a b)\<bar> \<le>
        \<bar>b32_val a - b32_val b\<bar> + (\<bar>b32_val a - b32_val b\<bar> / 2 ^ 24 + 1 / 2 ^ 150)"
    using n by linarith
  also have "\<dots> \<le> 2 ^ 62"
    using d by (simp; argo)
  finally show "\<bar>b32_val (b32_sub a b)\<bar> \<le> 2 ^ 62" .
qed

lemma b32_twice_scale:
  assumes "1 / 2 ^ 60 \<le> s" "s \<le> 2 ^ 60"
  shows "b32_finite (b32_mul (b32_lit 2) (Fin s))"
    "1 / 2 ^ 60 \<le> b32_val (b32_mul (b32_lit 2) (Fin s))"
    "b32_val (b32_mul (b32_lit 2) (Fin s)) \<le> 2 ^ 62"
proof -
  have s0: "0 \<le> 2 * s"
    using assms(1) by (simp; argo)
  have "\<bar>b32_val (Fin 2) * b32_val (Fin s)\<bar> \<le> 2 ^ 127"
    using assms s0 by (simp; argo)
  from b32_mul_near [OF _ _ this]
  have f: "b32_finite (b32_mul (b32_lit 2) (Fin s))"
    and n: "b32_near (b32_val (b32_mul (b32_lit 2) (Fin s))) (2 * s)"
    by (simp_all add: b32_lit_two)
  note n' = b32_near_bounds [OF n s0]
  show "b32_finite (b32_mul (b32_lit 2) (Fin s))" by (rule f)
  show "1 / 2 ^ 60 \<le> b32_val (b32_mul (b32_lit 2) (Fin s))"
    using n'(1) assms by (simp; argo)
  show "b32_val (b32_mul (b32_lit 2) (Fin s)) \<le> 2 ^ 62"
    using n'(2) assms by (simp; argo)
qed

subsection \<open>Normals at the limits of binary32\<close>

lemma neighbour_heights_corner: "neighbour_heights [a, b, c, d] 2 0 0 = (a, b, a, c)"
  by (simp add: neighbour_heights_def)

lemma corner_normal:
  "take 3 (drop 3 (generateTerrain_vertex b32_core [a, b, c, d] 2 scale 0 0)) =
     (let normal = b32_normalize (b32_sub a b, b32_mul (b32_lit 2) scale, b32_sub a c)
      in [fst normal, fst (snd normal), snd (snd normal)])"
  by (simp add: vertex_normal neighbour_heights_corner b32_core_def)

lemma b32_round_zero: "b32_round s 0 = (if s then NZero else Fin 0)"
  by (simp add: b32_round_def round_mag_def)

lemma b32_neg_simps [simp]:
  "b32_neg (Fin v) = (v < 0)" "b32_neg NZero" "b32_neg (Inf s) = s" "\<not> b32_neg NaN"
  by (simp_all add: b32_neg_def)

lemma b32_round_exact:
  assumes "0 < n" "n < 2 ^ 24" "- 149 \<le> e" "e < 105"
  shows "b32_round s (of_int n * 2 powi e) = Fin (if s then - (of_int n * 2 powi e) else of_int n * 2 powi e)"
proof -
  have "(of_int n :: real) < of_int (2 ^ 24)"
    using assms(2) by (simp only: of_int_less_iff)
  then have "of_int n * 2 powi e < 2 ^ 24 * (2::real) powi e"
    by (intro mult_strict_right_mono) simp_all
  also have "(2::real) powi e \<le> 2 powi 104"
    using assms(4) by (intro power_int_increasing) simp_all
  finally have "of_int n * 2 powi e < (2::real) ^ 128"
    by simp
  moreover have "0 < of_int n * (2::real) powi e"
    using assms(1) by simp
  ultimately show ?thesis
    using assms(1) by (simp add: b32_round_def Let_def round_mag_exact [OF assms(1-3)])
qed

lemma normal_underflow:
  "take 3 (drop 3 (generateTerrain_vertex b32_core [Fin 0, Fin 0, Fin 0, Fin 0] 2
     (Fin (1 / 2 ^ 80)) 0 0)) = [NaN, Inf False, NaN]"
proof -
  have y: "b32_mul (b32_lit 2) (Fin (1 / 2 ^ 80)) = Fin (1 / 2 ^ 79)"
    using b32_round_exact [of 1 "- 79" False]
    by (simp add: b32_lit_two b32_mul_def power_int_minus_divide)
  have yy: "b32_mul (Fin (1 / 2 ^ 79)) (Fin (1 / 2 ^ 79)) = Fin 0"
    using round_mag_eval [of "- 158" "1 / 2 ^ 158"]
    by (simp add: b32_mul_def b32_round_def power_int_minus_divide rne_def)
  have z: "b32_mul (Fin 0) (Fin 0) = Fin 0"
    by (simp add: b32_mul_def b32_round_zero)
  have d: "b32_add (b32_add (Fin 0) (Fin 0)) (Fin 0) = Fin 0"
    by (simp add: b32_add_def)
  have q: "b32_sqrt (Fin 0) = Fin 0"
    by (simp add: b32_sqrt_def b32_round_zero)
  have t: "b32_div (b32_lit 1) (Fin 0) = Inf False"
    by (simp add: b32_lit_one b32_div_def b32_is_zero_def)
  have n: "b32_mul (Fin 0) (Inf False) = NaN" "b32_mul (Fin (1 / 2 ^ 79)) (Inf False) = Inf False"
    by (simp_all add: b32_mul_def b32_is_zero_def)
  show ?thesis
    by (simp only: corner_normal b32_sub_self [OF b32_finite_simps(1)] y b32_normalize_def
        Let_def prod.case fst_conv snd_conv yy z d q t n)
qed

lemma normal_overflow:
  "take 3 (drop 3 (generateTerrain_vertex b32_core [Fin 0, Fin 0, Fin 0, Fin 0] 2
     (Fin (2 ^ 70)) 0 0)) = [Fin 0, Fin 0, Fin 0]"
proof -
  have y: "b32_mul (b32_lit 2) (Fin (2 ^ 70)) = Fin (2 ^ 71)"
    using b32_round_exact [of 1 71 False]
    by (simp add: b32_lit_two b32_mul_def)
  have yy: "b32_mul (Fin (2 ^ 71)) (Fin (2 ^ 71)) = Inf False"
    using round_mag_exact [of 1 142]
    by (simp add: b32_mul_def b32_round_def)
  have z: "b32_mul (Fin 0) (Fin 0) = Fin 0"
    by (simp add: b32_mul_def b32_round_zero)
  have d: "b32_add (b32_add (Fin 0) (Inf False)) (Fin 0) = Inf False"
    by (simp add: b32_add_def)
  have q: "b32_sqrt (Inf False) = Inf False"
    by (simp add: b32_sqrt_def)
  have t: "b32_div (b32_lit 1) (Inf False) = Fin 0"
    by (simp add: b32_lit_one b32_div_def)
  have n: "b32_mul (Fin (2 ^ 71)) (Fin 0) = Fin 0"
    by (simp add: b32_mul_def b32_round_zero)
  show ?thesis
    by (simp only: corner_normal b32_sub_self [OF b32_finite_simps(1)] y b32_normalize_def
        Let_def prod.case fst_conv snd_conv yy z d q t n)
qed

lemma normal_steep:
  "take 3 (drop 3 (generateTerrain_vertex b32_core [Fin 0, Fin (2 ^ 70), Fin 0, Fin 0] 2
     (Fin 1) 0 0)) = [NZero, Fin 0, Fin 0]"
proof -
  have p: "b32_sub (Fin 0) (Fin (2 ^ 70)) = Fin (- (2 ^ 70))"
    using b32_round_exact [of 1 70 True]
    by (simp add: b32_sub_def b32_add_def b32_minus_def)
  have y: "b32_mul (b32_lit 2) (Fin 1) = Fin 2"
    using b32_round_exact [of 1 1 False]
    by (simp add: b32_lit_two b32_mul_def)
  have pp: "b32_mul (Fin (- (2 ^ 70))) (Fin (- (2 ^ 70))) = Inf False"
    using round_mag_exact [of 1 140]
    by (simp add: b32_mul_def b32_round_def)
  have yy: "b32_mul (Fin 2) (Fin 2) = Fin 4"
    using b32_round_exact [of 1 2 False]
    by (simp add: b32_mul_def)
  have z: "b32_mul (Fin 0) (Fin 0) = Fin 0"
    by (simp add: b32_mul_def b32_round_zero)
  have d: "b32_add (b32_add (Inf False) (Fin 4)) (Fin 0) = Inf False"
    by (simp add: b32_add_def)
  have q: "b32_sqrt (Inf False) = Inf False"
    by (simp add: b32_sqrt_def)
  have t: "b32_div (b32_lit 1) (Inf False) = Fin 0"
    by (simp add: b32_lit_one b32_div_def)
  have n: "b32_mul (Fin (- (2 ^ 70))) (Fin 0) = NZero" "b32_mul (Fin 2) (Fin 0) = Fin 0"
    by (simp_all add: b32_mul_def b32_round_zero)
  show ?thesis
    by (simp only: corner_normal b32_sub_self [OF b32_finite_simps(1)] p y b32_normalize_def
        Let_def prod.case fst_conv snd_conv pp yy z d q t n)
qed

lemma normal_rounded:
  "take 3 (drop 3 (generateTerrain_vertex b32_core [Fin 0, Fin 0, Fin 0, Fin 0] 2
     (Fin (41 / 2)) 0 0)) = [Fin 0, Fin (16777215 / 2 ^ 24), Fin 0]"
proof -
  have y: "b32_mul (b32_lit 2) (Fin (41 / 2)) = Fin 41"
    using b32_round_exact [of 41 0 False]
    by (simp add: b32_lit_two b32_mul_def)
  have yy: "b32_mul (Fin 41) (Fin 41) = Fin 1681"
    using b32_round_exact [of 1681 0 False]
    by (simp add: b32_mul_def)
  have z: "b32_mul (Fin 0) (Fin 0) = Fin 0"
    by (simp add: b32_mul_def b32_round_zero)
  have d: "b32_add (b32_add (Fin 0) (Fin 1681)) (Fin 0) = Fin 1681"
    using b32_round_exact [of 1681 0 False]
    by (simp add: b32_add_def)
  have "sqrt 1681 = 41"
    by (rule real_sqrt_unique) simp_all
  then have q: "b32_sqrt (Fin 1681) = Fin 41"
    using b32_round_exact [of 41 0 False]
    by (simp add: b32_sqrt_def)
  have t: "b32_div (b32_lit 1) (Fin 41) = Fin (13094412 / 2 ^ 29)"
    using round_mag_eval [of "- 6" "1 / 41"]
    by (simp add: b32_lit_one b32_div_def b32_is_zero_def b32_round_def power_int_minus_divide
        rne_def)
  have n: "b32_mul (Fin 0) (Fin (13094412 / 2 ^ 29)) = Fin 0"
    by (simp add: b32_mul_def b32_round_zero)
  have n2: "b32_mul (Fin 41) (Fin (13094412 / 2 ^ 29)) = Fin (16777215 / 2 ^ 24)"
    using round_mag_eval [of "- 1" "41 * (13094412 / 2 ^ 29)"]
    by (simp add: b32_mul_def b32_round_def power_int_minus_divide rne_def)
  show ?thesis
    by (simp only: corner_normal b32_sub_self [OF b32_finite_simps(1)] y b32_normalize_def
        Let_def prod.case fst_conv snd_conv yy z d q t n n2)
qed

section \<open>The claims\<close>

text \<open>
  C1 (mesh integrity), as the code has it. For every \<open>N\<close> from 2 to 16383, and any
  scale, offsets, amplitude and frequency, \<open>generateTerrain\<close> returns a mesh with exactly
  \<open>8 * N\<^sup>2\<close> vertex floats (\<open>N\<^sup>2\<close> vertices of 8 floats), exactly \<open>6 * (N - 1)\<^sup>2\<close>
  indices, every index below \<open>N\<^sup>2\<close>, and the three indices of every triangle (every
  consecutive triple of the index stream) pairwise distinct. The upper bound is where
  \<open>N * N * 8\<close> still fits an \<open>int\<close>.
\<close>

theorem mesh_integrity:
  assumes "2 \<le> N" and "N \<le> 16383"
  shows "\<exists>m. generateTerrain P bufs N scale offsetX offsetZ amplitude freq = Inr m \<and>
           length (vertices m) = 8 * nat (N * N) \<and>
           length (indices m) = 6 * nat ((N - 1) * (N - 1)) \<and>
           (\<forall>i \<in> set (indices m). unat i < nat (N * N)) \<and>
           (\<forall>t. 3 * t + 2 < length (indices m) \<longrightarrow>
              distinct [indices m ! (3 * t), indices m ! (3 * t + 1), indices m ! (3 * t + 2)])"
proof -
  let ?hs = "generateTerrain_heights P N scale offsetX offsetZ amplitude freq"
  let ?vs = "concat (map (\<lambda>(z, x). generateTerrain_vertex P ?hs N scale z x)
               (List.product [0..N - 1] [0..N - 1]))"
  let ?is = "concat (map (\<lambda>(z, x). generateTerrain_cell N z x)
               (List.product [0..N - 2] [0..N - 2]))"
  have m: "generateTerrain P bufs N scale offsetX offsetZ amplitude freq =
           Inr \<lparr>vertices = ?vs, indices = ?is\<rparr>"
    using assms by (intro generateTerrain_mesh) simp_all
  have lv: "length ?vs = 8 * nat (N * N)"
    using assms by (intro vertices_length) simp
  have li: "length ?is = 6 * nat ((N - 1) * (N - 1))"
    using assms by (intro indices_length) simp
  have rng: "\<forall>i \<in> set ?is. unat i < nat (N * N)"
  proof
    fix i
    assume i: "i \<in> set ?is"
    have "set (map uint ?is) = set (concat (map (\<lambda>(z, x). cell_triangles N z x)
        (List.product [0..N - 2] [0..N - 2])))"
      by (simp only: uint_indices [OF assms(2)])
    moreover have "uint i \<in> set (map uint ?is)"
      using i by (simp only: set_map) (rule imageI)
    ultimately have "uint i \<in> set (concat (map (\<lambda>(z, x). cell_triangles N z x)
        (List.product [0..N - 2] [0..N - 2])))"
      by (simp only:)
    then have "0 \<le> uint i \<and> uint i < N * N"
      by (rule uint_indices_range)
    then have "nat (uint i) < nat (N * N)"
      by linarith
    then show "unat i < nat (N * N)"
      by simp
  qed
  have tri: "\<forall>t. 3 * t + 2 < length ?is \<longrightarrow>
      distinct [?is ! (3 * t), ?is ! (3 * t + 1), ?is ! (3 * t + 2)]"
    using triangle_distinct [OF assms(2)] by blast
  show ?thesis
    using m lv li rng tri by simp
qed

theorem mesh_integrity_witness:
  "(2::int) \<le> 2 \<and> (2::int) \<le> 16383 \<and>
   \<not> isl (generateTerrain flat_fpu empty_buffers 2 (Some 1) (Some 0) (Some 0) (Some 1) (Some 1)) \<and>
   length (vertices (projr (generateTerrain flat_fpu empty_buffers 2
     (Some 1) (Some 0) (Some 0) (Some 1) (Some 1)))) = 32 \<and>
   length (indices (projr (generateTerrain flat_fpu empty_buffers 2
     (Some 1) (Some 0) (Some 0) (Some 1) (Some 1)))) = 6"
proof -
  obtain m where m: "generateTerrain flat_fpu empty_buffers 2
      (Some 1) (Some 0) (Some 0) (Some 1) (Some 1) = Inr m"
    and l: "length (vertices m) = 8 * nat (2 * 2)" "length (indices m) = 6 * nat ((2 - 1) * (2 - 1))"
    using mesh_integrity [of 2 flat_fpu empty_buffers "Some 1" "Some 0" "Some 0" "Some 1" "Some 1"]
    by auto
  show ?thesis
    using l by (simp add: m)
qed

text \<open>
  At \<open>N = 16384\<close> the first \<open>reserve\<close> argument \<open>N * N * 8\<close> is \<open>2\<^sup>3\<^sup>1\<close>, one more than
  the largest \<open>int\<close>: no mesh is defined.
\<close>

theorem mesh_integrity_counterexample:
  "16384 * 16384 * 8 = (2147483648::int) \<and> \<not> int_ok (16384 * 16384 * 8) \<and>
   generateTerrain flat_fpu empty_buffers 16384 (Some 1) (Some 0) (Some 0) (Some 1) (Some 1) =
     Inl SignedOverflow"
  by (simp add: generateTerrain_def int_ok_def)

text \<open>
  C2 (the octave sum). \<open>sampleHeight\<close> translates \<open>(x, z)\<close> by the offset, sums
  exactly 6 octaves of \<open>stb_perlin_noise3\<close>, maps the sum through \<open>(sum + 1) / 2\<close>, raises
  it to the power 1.5 and multiplies by \<open>amplitude\<close>. In each octave the noise is sampled at
  \<open>(x * f, 0, z * f)\<close>: the axis that is not fed a coordinate is held at the literal 0. The
  octave amplitude starts at the literal 1 and is multiplied by the literal 0.5 after each
  octave; the frequency starts at \<open>freq\<close> and is multiplied by the literal 2 after each octave.
  The octaves are added in order, starting from the literal 0.
\<close>

theorem sampleHeight_octaves:
  "sampleHeight P x z offsetX offsetZ amplitude freq =
     fmul P
       (fpow P
          (fdiv P
             (fadd P (octave_sum P (fadd P x offsetX) (fadd P z offsetZ) freq 6) (flit P 1))
             (flit P 2))
          (flit P (3 / 2)))
       amplitude \<and>
   octave_sum P (fadd P x offsetX) (fadd P z offsetZ) freq 6 =
     fold (\<lambda>i s. fadd P s
             (fmul P
                (stb_perlin_noise3 P (fmul P (fadd P x offsetX) (octave_freq P freq i)) (flit P 0)
                   (fmul P (fadd P z offsetZ) (octave_freq P freq i)) 0 0 0)
                (octave_amp P i)))
       [0, 1, 2, 3, 4, 5] (flit P 0) \<and>
   octave_amp P 0 = flit P 1 \<and>
   (\<forall>i. octave_amp P (Suc i) = fmul P (octave_amp P i) (flit P (1 / 2))) \<and>
   octave_freq P freq 0 = freq \<and>
   (\<forall>i. octave_freq P freq (Suc i) = fmul P (octave_freq P freq i) (flit P 2))"
  by (simp add: sampleHeight_closed_form octave_term_def eval_nat_numeral)

text \<open>
  C4 (offset translation). Sampling at \<open>(x, z)\<close> with offset \<open>(d, 0)\<close> equals sampling at
  \<open>(x + d, z)\<close> with offset \<open>(0, 0)\<close>, in every arithmetic in which adding the literal 0 to
  the sum \<open>x + d\<close> returns that sum.
\<close>

theorem offset_translation:
  assumes "fadd P (fadd P x d) (flit P 0) = fadd P x d"
  shows "sampleHeight P x z d (flit P 0) amplitude freq =
         sampleHeight P (fadd P x d) z (flit P 0) (flit P 0) amplitude freq"
  by (simp add: sampleHeight_closed_form assms)

theorem offset_translation_witness:
  "fadd flat_fpu (fadd flat_fpu (Some 3) (Some 100)) (flit flat_fpu 0) =
     fadd flat_fpu (Some 3) (Some 100) \<and>
   sampleHeight flat_fpu (Some 3) (Some 2) (Some 100) (flit flat_fpu 0) (Some 10) (Some (1 / 10)) =
   sampleHeight flat_fpu (fadd flat_fpu (Some 3) (Some 100)) (Some 2) (flit flat_fpu 0)
     (flit flat_fpu 0) (Some 10) (Some (1 / 10))"
proof -
  have h: "fadd flat_fpu (fadd flat_fpu (Some 3) (Some 100)) (flit flat_fpu 0) =
     fadd flat_fpu (Some 3) (Some 100)"
    by (simp add: flat_fpu_def ideal_fpu_def ideal_op_def)
  show ?thesis
    using h offset_translation [OF h, of "Some 2" "Some 10" "Some (1 / 10)"] by simp
qed

text \<open>
  C5 (the triangle pattern), as the code has it. For every \<open>N\<close> from 2 to 16383, the index stream
  of the mesh is, for each cell \<open>(x, z)\<close> with \<open>x\<close> and \<open>z\<close> in \<open>[0, N - 2]\<close>, rows \<open>z\<close>
  outermost, the two triangles \<open>(i0, i2, i1)\<close> and \<open>(i1, i2, i3)\<close>; and it is the same
  stream for every arithmetic, every prior content of the vectors and every scale, offset,
  amplitude and frequency.
\<close>

theorem triangulation:
  assumes "2 \<le> N" and "N \<le> 16383"
  shows "\<exists>m. generateTerrain P bufs N scale offsetX offsetZ amplitude freq = Inr m \<and>
           map uint (indices m) =
             concat (map (\<lambda>z. concat (map (\<lambda>x. cell_triangles N z x) [0..N - 2])) [0..N - 2]) \<and>
           (\<forall>P' bufs' scale' offsetX' offsetZ' amplitude' freq'.
              \<exists>m'. generateTerrain P' bufs' N scale' offsetX' offsetZ' amplitude' freq' = Inr m' \<and>
                   indices m' = indices m)"
proof -
  have r: "- 16383 \<le> N" using assms by simp
  have "\<And>(P' :: 'a fpu) bufs' scale' offsetX' offsetZ' amplitude' freq'.
      indices (projr (generateTerrain P' bufs' N scale' offsetX' offsetZ' amplitude' freq')) =
      concat (map (\<lambda>(z, x). generateTerrain_cell N z x) (List.product [0..N - 2] [0..N - 2])) \<and>
      \<not> isl (generateTerrain P' bufs' N scale' offsetX' offsetZ' amplitude' freq')"
    by (simp add: generateTerrain_mesh [OF r assms(2)])
  moreover have "map uint (concat (map (\<lambda>(z, x). generateTerrain_cell N z x)
      (List.product [0..N - 2] [0..N - 2]))) =
      concat (map (\<lambda>z. concat (map (\<lambda>x. cell_triangles N z x) [0..N - 2])) [0..N - 2])"
    using uint_indices [OF assms(2)] by (simp only: row_major_cells)
  ultimately show ?thesis
    by (simp add: generateTerrain_mesh [OF r assms(2)])
qed

theorem triangulation_witness:
  "(2::int) \<le> 3 \<and> (3::int) \<le> 16383 \<and>
   map uint (indices (projr (generateTerrain flat_fpu empty_buffers 3
     (Some 1) (Some 0) (Some 0) (Some 1) (Some 1)))) =
   [0, 3, 1, 1, 3, 4, 1, 4, 2, 2, 4, 5, 3, 6, 4, 4, 6, 7, 4, 7, 5, 5, 7, 8]"
proof -
  obtain m where m: "generateTerrain flat_fpu empty_buffers 3
      (Some 1) (Some 0) (Some 0) (Some 1) (Some 1) = Inr m"
    and i: "map uint (indices m) =
      concat (map (\<lambda>z. concat (map (\<lambda>x. cell_triangles 3 z x) [0..3 - 2])) [0..3 - 2])"
    using triangulation [of 3 flat_fpu empty_buffers "Some 1" "Some 0" "Some 0" "Some 1" "Some 1"]
    by auto
  have "[0..3 - 2] = [0, 1::int]"
    by (simp add: upto_rec1)
  then show ?thesis
    using i by (simp add: m cell_triangles_def)
qed

text \<open>At \<open>N = 20000\<close> the \<open>reserve\<close> argument \<open>N * N * 8\<close> does not fit an \<open>int\<close>.\<close>

theorem triangulation_counterexample:
  "generateTerrain flat_fpu empty_buffers 20000 (Some 1) (Some 0) (Some 0) (Some 1) (Some 1) =
     Inl SignedOverflow"
  by (simp add: generateTerrain_def int_ok_def)

text \<open>
  C6 (vertex layout), as the code has it. For every \<open>N\<close> from 2 to 16383 and every lattice
  point \<open>(x, z)\<close>, the eight floats of the vertex at row-major position \<open>z * N + x\<close> are:
  the position \<open>px = (x - N/2) * scale\<close>, \<open>py\<close> the entry \<open>z * N + x\<close> of the heights grid
  (which is \<open>sampleHeight\<close> at \<open>(x * scale, z * scale)\<close>), \<open>pz = (z - N/2) * scale\<close>, with
  \<open>N/2\<close> the integer quotient; the normal
  \<open>normalize (hLeft - hRight, 2 * scale, hDown - hUp)\<close>, where a neighbour outside the grid is
  replaced by the point's own height; and the texture coordinates \<open>u = x / (N - 1)\<close>,
  \<open>v = z / (N - 1)\<close>, in which no height occurs.
\<close>

theorem vertex_layout:
  assumes "2 \<le> N" and "N \<le> 16383" and "0 \<le> x" and "x < N" and "0 \<le> z" and "z < N"
  shows "\<exists>m. generateTerrain P bufs N scale offsetX offsetZ amplitude freq = Inr m \<and>
           generateTerrain_heights P N scale offsetX offsetZ amplitude freq ! nat (z * N + x) =
             grid_height P scale offsetX offsetZ amplitude freq z x \<and>
           take 8 (drop (8 * nat (z * N + x)) (vertices m)) =
             (let H = grid_height P scale offsetX offsetZ amplitude freq;
                  hLeft = (if x > 0 then H z (x - 1) else H z x);
                  hRight = (if x < N - 1 then H z (x + 1) else H z x);
                  hDown = (if z > 0 then H (z - 1) x else H z x);
                  hUp = (if z < N - 1 then H (z + 1) x else H z x);
                  normal = glm_normalize P
                    (fsub P hLeft hRight, fmul P (flit P 2) scale, fsub P hDown hUp)
              in [fmul P (fint P (x - N div 2)) scale, H z x, fmul P (fint P (z - N div 2)) scale,
                  fst normal, fst (snd normal), snd (snd normal),
                  fdiv P (fint P x) (fint P (N - 1)), fdiv P (fint P z) (fint P (N - 1))])"
proof -
  have r: "- 16383 \<le> N" using assms by simp
  obtain m where m: "generateTerrain P bufs N scale offsetX offsetZ amplitude freq = Inr m"
    and b: "take 8 (drop (8 * nat (z * N + x)) (vertices m)) =
             generateTerrain_vertex P
               (generateTerrain_heights P N scale offsetX offsetZ amplitude freq) N scale z x"
    using vertex_block [OF r assms(2) assms(5,6) assms(3,4), of P bufs scale offsetX offsetZ amplitude freq]
    by blast
  have h: "generateTerrain_heights P N scale offsetX offsetZ amplitude freq ! nat (z * N + x) =
             grid_height P scale offsetX offsetZ amplitude freq z x"
    using assms(5,6) assms(3,4) by (rule nth_heights)
  show ?thesis
    using m h b vertex_grid [OF assms(5,6) assms(3,4)] by simp
qed

theorem vertex_layout_witness:
  "(2::int) \<le> 2 \<and> (2::int) \<le> 16383 \<and> (0::int) \<le> 1 \<and> (1::int) < 2 \<and> (0::int) \<le> 0 \<and> (0::int) < 2 \<and>
   take 8 (drop 8 (vertices (projr (generateTerrain flat_fpu empty_buffers 2
     (Some 1) (Some 0) (Some 0) (Some 1) (Some 1))))) =
   [Some 0, Some ((1 / 2) powr (3 / 2)), Some (- 1), Some 0, Some 1, Some 0, Some 1, Some 0]"
proof -
  obtain m where m: "generateTerrain flat_fpu empty_buffers 2
      (Some 1) (Some 0) (Some 0) (Some 1) (Some 1) = Inr m"
    and b: "take 8 (drop (8 * nat (0 * 2 + 1)) (vertices m)) =
      (let H = grid_height flat_fpu (Some 1) (Some 0) (Some 0) (Some 1) (Some 1);
           hLeft = (if (1::int) > 0 then H 0 (1 - 1) else H 0 1);
           hRight = (if (1::int) < 2 - 1 then H 0 (1 + 1) else H 0 1);
           hDown = (if (0::int) > 0 then H (0 - 1) 1 else H 0 1);
           hUp = (if (0::int) < 2 - 1 then H (0 + 1) 1 else H 0 1);
           normal = glm_normalize flat_fpu
             (fsub flat_fpu hLeft hRight, fmul flat_fpu (flit flat_fpu 2) (Some 1),
              fsub flat_fpu hDown hUp)
       in [fmul flat_fpu (fint flat_fpu (1 - 2 div 2)) (Some 1), H 0 1,
           fmul flat_fpu (fint flat_fpu (0 - 2 div 2)) (Some 1),
           fst normal, fst (snd normal), snd (snd normal),
           fdiv flat_fpu (fint flat_fpu 1) (fint flat_fpu (2 - 1)),
           fdiv flat_fpu (fint flat_fpu 0) (fint flat_fpu (2 - 1))])"
    using vertex_layout [of 2 1 0 flat_fpu empty_buffers "Some 1" "Some 0" "Some 0" "Some 1" "Some 1"]
    by auto
  have "take 8 (drop 8 (vertices m)) =
    [Some 0, Some ((1 / 2) powr (3 / 2)), Some (- 1), Some 0, Some 1, Some 0, Some 1, Some 0]"
    using b
    by (simp add: grid_height_def flat_fpu_def const_sampleHeight ideal_normalize_def
        ideal_sqrt_def)
  then show ?thesis
    by (simp add: m)
qed

text \<open>At \<open>N = 46341\<close> even the size \<open>N * N\<close> of the heights grid does not fit an \<open>int\<close>.\<close>

theorem vertex_layout_counterexample:
  "\<not> int_ok (46341 * 46341) \<and>
   generateTerrain flat_fpu empty_buffers 46341 (Some 1) (Some 0) (Some 0) (Some 1) (Some 1) =
     Inl SignedOverflow"
  by (simp add: generateTerrain_def int_ok_def)

text \<open>
  C8 (preconditions), as the code has it. \<open>generateTerrain\<close> checks nothing and has no
  error path of its own: for every \<open>N\<close> from -16383 to 16383 and any scale, offsets,
  amplitude and frequency, finite or not, it returns a mesh. For \<open>N \<le> 1\<close> that mesh has no
  index, so no triangle, and 8 vertex floats when \<open>N = 1\<close>, none otherwise.
\<close>

theorem no_precondition_check:
  assumes "- 16383 \<le> N" and "N \<le> 16383"
  shows "\<exists>m. generateTerrain P bufs N scale offsetX offsetZ amplitude freq = Inr m \<and>
           (N \<le> 1 \<longrightarrow> indices m = [] \<and> length (vertices m) = (if N = 1 then 8 else 0))"
proof -
  have "N \<le> 1 \<Longrightarrow> [0..N - 2] = []"
    by simp
  moreover have "N \<le> 0 \<Longrightarrow> [0..N - 1] = []"
    by simp
  moreover have "N = 1 \<Longrightarrow> List.product [0..N - 1] [0..N - 1] = [(0, 0)]"
    by simp
  ultimately show ?thesis
    by (auto simp: generateTerrain_mesh [OF assms])
qed

theorem no_precondition_check_witness:
  "- 16383 \<le> (0::int) \<and> (0::int) \<le> 16383 \<and> (0::int) \<le> 1 \<and>
   generateTerrain flat_fpu empty_buffers 0 (Some 1) (Some 0) (Some 0) None None =
     Inr \<lparr>vertices = [], indices = []\<rparr>"
proof -
  obtain m where m: "generateTerrain flat_fpu empty_buffers 0 (Some 1) (Some 0) (Some 0) None None
      = Inr m" and e: "indices m = []" "length (vertices m) = 0"
    using no_precondition_check [of 0 flat_fpu empty_buffers "Some 1" "Some 0" "Some 0" None None]
    by auto
  have "m = \<lparr>vertices = [], indices = []\<rparr>"
    using e by (cases m) simp
  then show ?thesis
    using m by simp
qed

text \<open>
  At \<open>N = 1\<close> the call returns normally: one vertex, whose two texture coordinates are
  \<open>0 / 0\<close>, and an empty index stream.
\<close>

theorem no_precondition_check_counterexample:
  "generateTerrain flat_fpu empty_buffers 1 (Some 1) (Some 0) (Some 0) (Some 1) (Some 1) =
     Inr \<lparr>vertices = [Some 0, Some ((1 / 2) powr (3 / 2)), Some 0, Some 0, Some 1, Some 0,
                       None, None],
          indices = []\<rparr>"
  by (rule degenerate_mesh)

text \<open>
  C9 (unit normals), as the code has it in binary32. The magnitude of a normal is 1 only
  up to rounding, and only while the squared length of the vector handed to
  \<open>glm::normalize\<close> neither underflows nor overflows. For every elevation grid of finite
  heights of magnitude at most \<open>2^60\<close> and every scale from \<open>2^-60\<close> to \<open>2^60\<close>, at
  every lattice point: the y component \<open>2 * scale\<close> of the vector handed to
  \<open>glm::normalize\<close> is finite and strictly positive, so that vector is never the zero
  vector; the three floats of the emitted normal are finite and its magnitude differs
  from 1 by at most \<open>2^-18\<close>; and where the point is perfectly flat (left and right
  heights equal, down and up heights equal) the normal is \<open>(0, ny, 0)\<close> with \<open>ny\<close>
  within \<open>2^-18\<close> of 1. For \<open>N \<le> 16383\<close> the point's block of 8 floats in the vertex
  stream that \<open>generateTerrain\<close> returns is \<open>generateTerrain_vertex\<close> of the grid
  \<open>generateTerrain_heights\<close>, and the normal is floats 3 to 5 of that block.
\<close>

theorem unit_normals:
  assumes len: "length hs = nat (N * N)" and N: "N \<le> 16383"
    and z: "0 \<le> z" "z < N" and x: "0 \<le> x" "x < N"
    and s: "1 / 2 ^ 60 \<le> s" "s \<le> 2 ^ 60"
    and hs: "\<forall>h\<in>set hs. b32_finite h \<and> \<bar>b32_val h\<bar> \<le> 2 ^ 60"
  shows "case neighbour_heights hs N z x of (hLeft, hRight, hDown, hUp) \<Rightarrow>
           b32_finite (fmul (b32_fpu pw ns) (flit (b32_fpu pw ns) 2) (Fin s)) \<and>
           0 < b32_val (fmul (b32_fpu pw ns) (flit (b32_fpu pw ns) 2) (Fin s)) \<and>
           (\<exists>n1 n2 n3.
              take 3 (drop 3 (generateTerrain_vertex (b32_fpu pw ns) hs N (Fin s) z x)) =
                [n1, n2, n3] \<and>
              b32_finite n1 \<and> b32_finite n2 \<and> b32_finite n3 \<and>
              \<bar>sqrt ((b32_val n1)\<^sup>2 + (b32_val n2)\<^sup>2 + (b32_val n3)\<^sup>2) - 1\<bar> \<le> 1 / 2 ^ 18 \<and>
              (b32_val hLeft = b32_val hRight \<and> b32_val hDown = b32_val hUp \<longrightarrow>
                 b32_val n1 = 0 \<and> b32_val n3 = 0 \<and> \<bar>b32_val n2 - 1\<bar> \<le> 1 / 2 ^ 18)) \<and>
           (\<forall>bufs offsetX offsetZ amplitude freq.
              \<exists>m. generateTerrain (b32_fpu pw ns) bufs N (Fin s) offsetX offsetZ amplitude freq =
                     Inr m \<and>
                  take 8 (drop (8 * nat (z * N + x)) (vertices m)) =
                    generateTerrain_vertex (b32_fpu pw ns)
                      (generateTerrain_heights (b32_fpu pw ns) N (Fin s) offsetX offsetZ
                         amplitude freq) N (Fin s) z x)"
proof -
  obtain hLeft hRight hDown hUp where nb: "neighbour_heights hs N z x = (hLeft, hRight, hDown, hUp)"
    by (metis prod_cases4)
  from neighbours_in_grid [OF len z x hs nb]
  have hLeft: "b32_finite hLeft" "\<bar>b32_val hLeft\<bar> \<le> 2 ^ 60" and hRight: "b32_finite hRight" "\<bar>b32_val hRight\<bar> \<le> 2 ^ 60"
    and hDown: "b32_finite hDown" "\<bar>b32_val hDown\<bar> \<le> 2 ^ 60" and hUp: "b32_finite hUp" "\<bar>b32_val hUp\<bar> \<le> 2 ^ 60"
    by simp_all
  let ?p = "b32_sub hLeft hRight" and ?y = "b32_mul (b32_lit 2) (Fin s)" and ?r = "b32_sub hDown hUp"
  note y = b32_twice_scale [OF s]
  have y0: "0 < b32_val ?y"
    using y(2) by (rule less_le_trans [rotated]) simp
  obtain n1 n2 n3 where n: "b32_normalize (?p, ?y, ?r) = (n1, n2, n3)"
    and f: "b32_finite n1" "b32_finite n2" "b32_finite n3"
    and mag: "\<bar>(b32_val n1)\<^sup>2 + (b32_val n2)\<^sup>2 + (b32_val n3)\<^sup>2 - 1\<bar> \<le> 1 / 2 ^ 18"
    and flat: "b32_val ?p = 0 \<and> b32_val ?r = 0 \<longrightarrow>
               b32_val n1 = 0 \<and> b32_val n3 = 0 \<and> \<bar>b32_val n2 - 1\<bar> \<le> 1 / 2 ^ 18"
    using b32_normalize_unit [OF b32_sub_bounded [OF hLeft hRight] y b32_sub_bounded [OF hDown hUp]]
    by blast
  have "\<bar>sqrt ((b32_val n1)\<^sup>2 + (b32_val n2)\<^sup>2 + (b32_val n3)\<^sup>2) - 1\<bar> \<le>
        \<bar>(b32_val n1)\<^sup>2 + (b32_val n2)\<^sup>2 + (b32_val n3)\<^sup>2 - 1\<bar>"
    by (rule sqrt_near_one) simp
  then have mag': "\<bar>sqrt ((b32_val n1)\<^sup>2 + (b32_val n2)\<^sup>2 + (b32_val n3)\<^sup>2) - 1\<bar> \<le> 1 / 2 ^ 18"
    using mag by linarith
  have flat': "b32_val n1 = 0 \<and> b32_val n3 = 0 \<and> \<bar>b32_val n2 - 1\<bar> \<le> 1 / 2 ^ 18"
    if "b32_val hLeft = b32_val hRight" "b32_val hDown = b32_val hUp"
    using flat b32_sub_flat(2) [OF hLeft(1) hRight(1) that(1)] b32_sub_flat(2) [OF hDown(1) hUp(1) that(2)]
    by blast
  have v: "take 3 (drop 3 (generateTerrain_vertex (b32_fpu pw ns) hs N (Fin s) z x)) = [n1, n2, n3]"
    unfolding vertex_normal nb by (simp add: n)
  have N': "- 16383 \<le> N"
    using z by linarith
  have mesh: "\<exists>m. generateTerrain (b32_fpu pw ns) bufs N (Fin s) offsetX offsetZ amplitude freq =
                     Inr m \<and>
                  take 8 (drop (8 * nat (z * N + x)) (vertices m)) =
                    generateTerrain_vertex (b32_fpu pw ns)
                      (generateTerrain_heights (b32_fpu pw ns) N (Fin s) offsetX offsetZ
                         amplitude freq) N (Fin s) z x"
    for bufs offsetX offsetZ amplitude freq
    by (rule vertex_block [OF N' N z x])
  show ?thesis
    unfolding nb using y(1) y0 v f mag' flat' mesh by auto
qed

theorem unit_normals_witness:
  "length [Fin 1, Fin 1, Fin 1, Fin 1] = nat (2 * 2) \<and> (2::int) \<le> 16383 \<and>
   (0::int) \<le> 0 \<and> (0::int) < 2 \<and> (1::real) / 2 ^ 60 \<le> 1 \<and> (1::real) \<le> 2 ^ 60 \<and>
   b32_finite (Fin 1) \<and> \<bar>b32_val (Fin 1)\<bar> \<le> 2 ^ 60 \<and>
   neighbour_heights [Fin 1, Fin 1, Fin 1, Fin 1] 2 0 0 = (Fin 1, Fin 1, Fin 1, Fin 1) \<and>
   b32_finite (fmul b32_core (flit b32_core 2) (Fin 1)) \<and>
   0 < b32_val (fmul b32_core (flit b32_core 2) (Fin 1)) \<and>
   (\<exists>n1 n2 n3.
      take 3 (drop 3 (generateTerrain_vertex b32_core [Fin 1, Fin 1, Fin 1, Fin 1] 2 (Fin 1) 0 0)) =
        [n1, n2, n3] \<and>
      b32_finite n1 \<and> b32_finite n2 \<and> b32_finite n3 \<and>
      \<bar>sqrt ((b32_val n1)\<^sup>2 + (b32_val n2)\<^sup>2 + (b32_val n3)\<^sup>2) - 1\<bar> \<le> 1 / 2 ^ 18 \<and>
      b32_val n1 = 0 \<and> b32_val n3 = 0 \<and> \<bar>b32_val n2 - 1\<bar> \<le> 1 / 2 ^ 18) \<and>
   (\<exists>m. generateTerrain b32_core \<lparr>vertices = [], indices = []\<rparr> 2 (Fin 1) (Fin 0) (Fin 0)
           (Fin 1) (Fin 1) = Inr m \<and>
        take 8 (drop (8 * nat (0 * 2 + 0)) (vertices m)) =
          generateTerrain_vertex b32_core
            (generateTerrain_heights b32_core 2 (Fin 1) (Fin 0) (Fin 0) (Fin 1) (Fin 1))
            2 (Fin 1) 0 0)"
proof -
  have hyp: "\<forall>h\<in>set [Fin 1, Fin 1, Fin 1, Fin 1]. b32_finite h \<and> \<bar>b32_val h\<bar> \<le> 2 ^ 60"
    by simp
  have nb: "neighbour_heights [Fin 1, Fin 1, Fin 1, Fin 1] 2 0 0 = (Fin 1, Fin 1, Fin 1, Fin 1)"
    by (rule neighbour_heights_corner)
  have "case neighbour_heights [Fin 1, Fin 1, Fin 1, Fin 1] 2 0 0 of
          (hLeft, hRight, hDown, hUp) \<Rightarrow>
           b32_finite (fmul b32_core (flit b32_core 2) (Fin 1)) \<and>
           0 < b32_val (fmul b32_core (flit b32_core 2) (Fin 1)) \<and>
           (\<exists>n1 n2 n3.
              take 3 (drop 3 (generateTerrain_vertex b32_core [Fin 1, Fin 1, Fin 1, Fin 1] 2
                (Fin 1) 0 0)) = [n1, n2, n3] \<and>
              b32_finite n1 \<and> b32_finite n2 \<and> b32_finite n3 \<and>
              \<bar>sqrt ((b32_val n1)\<^sup>2 + (b32_val n2)\<^sup>2 + (b32_val n3)\<^sup>2) - 1\<bar> \<le> 1 / 2 ^ 18 \<and>
              (b32_val hLeft = b32_val hRight \<and> b32_val hDown = b32_val hUp \<longrightarrow>
                 b32_val n1 = 0 \<and> b32_val n3 = 0 \<and> \<bar>b32_val n2 - 1\<bar> \<le> 1 / 2 ^ 18)) \<and>
           (\<forall>bufs offsetX offsetZ amplitude freq.
              \<exists>m. generateTerrain b32_core bufs 2 (Fin 1) offsetX offsetZ amplitude freq =
                     Inr m \<and>
                  take 8 (drop (8 * nat (0 * 2 + 0)) (vertices m)) =
                    generateTerrain_vertex b32_core
                      (generateTerrain_heights b32_core 2 (Fin 1) offsetX offsetZ
                         amplitude freq) 2 (Fin 1) 0 0)"
    unfolding b32_core_def
    by (rule unit_normals [of "[Fin 1, Fin 1, Fin 1, Fin 1]" 2 0 0 1]) (simp_all add: hyp)
  then have A: "b32_finite (fmul b32_core (flit b32_core 2) (Fin 1))"
    and B: "0 < b32_val (fmul b32_core (flit b32_core 2) (Fin 1))"
    and C: "\<exists>n1 n2 n3.
      take 3 (drop 3 (generateTerrain_vertex b32_core [Fin 1, Fin 1, Fin 1, Fin 1] 2 (Fin 1) 0 0)) =
        [n1, n2, n3] \<and>
      b32_finite n1 \<and> b32_finite n2 \<and> b32_finite n3 \<and>
      \<bar>sqrt ((b32_val n1)\<^sup>2 + (b32_val n2)\<^sup>2 + (b32_val n3)\<^sup>2) - 1\<bar> \<le> 1 / 2 ^ 18 \<and>
      b32_val n1 = 0 \<and> b32_val n3 = 0 \<and> \<bar>b32_val n2 - 1\<bar> \<le> 1 / 2 ^ 18"
    and D: "\<exists>m. generateTerrain b32_core \<lparr>vertices = [], indices = []\<rparr> 2 (Fin 1) (Fin 0) (Fin 0)
           (Fin 1) (Fin 1) = Inr m \<and>
        take 8 (drop (8 * nat (0 * 2 + 0)) (vertices m)) =
          generateTerrain_vertex b32_core
            (generateTerrain_heights b32_core 2 (Fin 1) (Fin 0) (Fin 0) (Fin 1) (Fin 1))
            2 (Fin 1) 0 0"
    unfolding nb prod.case by blast+
  show ?thesis
    by (intro conjI A B C D nb) simp_all
qed

text \<open>
  The corner point \<open>(0, 0)\<close> of four grids with \<open>N = 2\<close>. On a flat grid at scale
  \<open>2^-80\<close> the squared length underflows to 0 and the normal is (NaN, +infinity, NaN); at
  scale \<open>2^70\<close> it overflows and the normal is \<open>(0, 0, 0)\<close>. At scale 1 with the heights
  0 and \<open>2^70\<close> side by side it overflows too, and the normal is \<open>(-0, 0, 0)\<close>. On a flat
  grid at scale 20.5 nothing overflows or underflows, and the normal is
  \<open>(0, 1 - 2^-24, 0)\<close>.
\<close>

theorem unit_normals_counterexample:
  "take 3 (drop 3 (generateTerrain_vertex b32_core [Fin 0, Fin 0, Fin 0, Fin 0] 2
     (Fin (1 / 2 ^ 80)) 0 0)) = [NaN, Inf False, NaN] \<and>
   take 3 (drop 3 (generateTerrain_vertex b32_core [Fin 0, Fin 0, Fin 0, Fin 0] 2
     (Fin (2 ^ 70)) 0 0)) = [Fin 0, Fin 0, Fin 0] \<and>
   take 3 (drop 3 (generateTerrain_vertex b32_core [Fin 0, Fin (2 ^ 70), Fin 0, Fin 0] 2
     (Fin 1) 0 0)) = [NZero, Fin 0, Fin 0] \<and>
   take 3 (drop 3 (generateTerrain_vertex b32_core [Fin 0, Fin 0, Fin 0, Fin 0] 2
     (Fin (41 / 2)) 0 0)) = [Fin 0, Fin (16777215 / 2 ^ 24), Fin 0]"
  by (intro conjI normal_underflow normal_overflow normal_steep normal_rounded)

text \<open>
  C10 (the vectors are cleared). The result of \<open>generateTerrain\<close> does not depend on what
  the two vectors held when it was called.
\<close>

theorem clears_buffers:
  "generateTerrain P bufs N scale offsetX offsetZ amplitude freq =
   generateTerrain P bufs' N scale offsetX offsetZ amplitude freq"
  by (rule generateTerrain_buffers)

end
